theory Spec2Isabelle
  imports Complex_Main "HOL-Library.Multiset"
begin

section \<open>Values and tree nodes\<close>

text \<open>
  The component (\<^verbatim>\<open>src/components/OrgChart.vue\<close>) works on objects of the type
  \<^verbatim>\<open>Tree<Datum> = { value: Datum; children?: Tree<Datum>[] | null }\<close> where a
  \<^verbatim>\<open>Datum\<close> maps field names to values of any type. The component stores its own
  bookkeeping in the same \<^verbatim>\<open>value\<close> object (\<^verbatim>\<open>_key\<close>, \<^verbatim>\<open>_children\<close>,
  \<^verbatim>\<open>_collapsed\<close>) and writes \<^verbatim>\<open>value._children\<close> back into \<^verbatim>\<open>children\<close>, so
  both positions hold a dynamically typed value. The values modelled are undefined
  (also: a field that is absent), null, booleans, strings and arrays of tree nodes; other
  JavaScript values are outside the model. A payload is an association list in insertion
  order.
\<close>

datatype jsval = JUndefined | JNull | JBool bool | JStr string | JArr "tree list"
and tree = Tree (val: "(string \<times> jsval) list") (children: jsval)

text \<open>JavaScript truthiness, as \<^verbatim>\<open>if (node.children)\<close> tests it.\<close>

fun truthy :: "jsval \<Rightarrow> bool" where
  "truthy JUndefined = False"
| "truthy JNull = False"
| "truthy (JBool b) = b"
| "truthy (JStr s) = (s \<noteq> [])"
| "truthy (JArr ts) = True"

text \<open>Reading a field (\<^verbatim>\<open>value.k\<close>, undefined when absent) and assigning one
  (\<^verbatim>\<open>value.k = x\<close>: in place when present, appended otherwise).\<close>

definition get :: "string \<Rightarrow> (string \<times> jsval) list \<Rightarrow> jsval" where
  "get k v = (case map_of v k of None \<Rightarrow> JUndefined | Some x \<Rightarrow> x)"

fun put :: "string \<Rightarrow> jsval \<Rightarrow> (string \<times> jsval) list \<Rightarrow> (string \<times> jsval) list" where
  "put k x [] = [(k, x)]"
| "put k x ((k', y) # r) = (if k = k' then (k, x) # r else (k', y) # put k x r)"

text \<open>The elements of an array value; every other value has none.\<close>

fun arr :: "jsval \<Rightarrow> tree list" where
  "arr (JArr ts) = ts"
| "arr _ = []"

section \<open>Normalization: \<^verbatim>\<open>updatedInternalData\<close> and \<^verbatim>\<open>deepCopy\<close>\<close>

text \<open>
  The caller's data has the declared type \<^verbatim>\<open>Tree<Datum>\<close>: its \<^verbatim>\<open>children\<close> are an
  array, or null or absent (\<open>None\<close>; the code only tests their truthiness).
  \<^verbatim>\<open>updatedInternalData\<close> accepts nothing at all, an array of trees or one tree.
\<close>

datatype raw = Raw (rvalue: "(string \<times> jsval) list") (rchildren: "raw list option")

datatype external = NoData | Forest "raw list" | Single raw

text \<open>
  \<^verbatim>\<open>uuidv4()\<close> comes from the package \<^verbatim>\<open>uuid\<close>. The parameter \<open>uuid\<close> gives the
  string that its \<open>n\<close>-th call returns; the number of calls made so far is threaded through
  the copy. \<^verbatim>\<open>{ _key: uuidv4(), ...node.value }\<close> writes the fresh key first and then
  every field of the caller's payload, so a caller's own \<^verbatim>\<open>_key\<close> replaces it.
\<close>

fun deepCopy :: "(nat \<Rightarrow> string) \<Rightarrow> raw \<Rightarrow> nat \<Rightarrow> tree \<times> nat"
and deepCopies :: "(nat \<Rightarrow> string) \<Rightarrow> raw list \<Rightarrow> nat \<Rightarrow> tree list \<times> nat" where
  "deepCopy uuid (Raw v cs) n =
     (let obj_value = fold (\<lambda>(k, x). put k x) v [(''_key'', JStr (uuid n))] in
      case cs of
        None \<Rightarrow> (Tree obj_value JUndefined, Suc n)
      | Some rs \<Rightarrow>
          (let (ts, n') = deepCopies uuid rs (Suc n) in (Tree obj_value (JArr ts), n')))"
| "deepCopies uuid [] n = ([], n)"
| "deepCopies uuid (r # rs) n =
     (let (t, n1) = deepCopy uuid r n; (ts, n2) = deepCopies uuid rs n1 in (t # ts, n2))"

text \<open>The loop \<^verbatim>\<open>for (var i = externalData.length - 1; i >= 0; i--)\<close>: the first argument
  counts the elements still to copy, so the element copied next has index \<open>i\<close>.\<close>

fun copyLoop :: "(nat \<Rightarrow> string) \<Rightarrow> raw list \<Rightarrow> nat \<Rightarrow> tree list \<Rightarrow> nat \<Rightarrow> tree list \<times> nat" where
  "copyLoop uuid externalData 0 cs n = (cs, n)"
| "copyLoop uuid externalData (Suc i) cs n =
     (let (t, n') = deepCopy uuid (externalData ! i) n
      in copyLoop uuid externalData i (cs @ [t]) n')"

definition invisible_root :: "(string \<times> jsval) list" where
  "invisible_root = [(''name'', JStr ''__invisible_root'')]"

definition updatedInternalData :: "(nat \<Rightarrow> string) \<Rightarrow> external \<Rightarrow> nat \<Rightarrow> tree \<times> nat" where
  "updatedInternalData uuid externalData n =
     (case externalData of
        NoData \<Rightarrow> (Tree invisible_root (JArr []), n)
      | Forest rs \<Rightarrow>
          (let (cs, n') = copyLoop uuid rs (length rs) [] n in (Tree invisible_root (JArr cs), n'))
      | Single r \<Rightarrow>
          (let (t, n') = deepCopy uuid r n in (Tree invisible_root (JArr [t]), n')))"

text \<open>The data set that the component is built with.\<close>

definition dataset :: external where
  "dataset = Single (Raw [(''label'', JStr ''1'')] (Some
     [ Raw [(''label'', JStr ''2'')] (Some
         [Raw [(''label'', JStr ''3'')] None, Raw [(''label'', JStr ''4'')] None]),
       Raw [(''label'', JStr ''5'')] None ]))"

section \<open>Layout: \<^verbatim>\<open>buildTree\<close> and \<^verbatim>\<open>draw\<close>\<close>

text \<open>
  \<^verbatim>\<open>d3.hierarchy\<close> reads the children of a data node with \<^verbatim>\<open>d.children\<close> and keeps
  them when they are a non-empty array; null, undefined and booleans give a node without
  children. A non-empty string in that place is not modelled (d3 would take its
  characters as data nodes); only a caller's payload that stores a string under
  \<^verbatim>\<open>_children\<close> can put one there.
\<close>

definition kids :: "tree \<Rightarrow> tree list" where
  "kids t = arr (children t)"

lemma size_member: "c \<in> set ts \<Longrightarrow> size c < Suc (size_list size ts)"
  for c :: tree
  by (induction ts) auto

lemma size_kids [termination_simp]: "c \<in> set (kids t) \<Longrightarrow> size c < size t"
proof (cases t)
  case (Tree v ch)
  assume c: "c \<in> set (kids t)"
  show ?thesis
  proof (cases ch)
    case (JArr ts)
    with c Tree have "size c < Suc (size_list size ts)"
      by (simp add: kids_def size_member)
    with Tree JArr show ?thesis by simp
  qed (use c Tree in \<open>simp_all add: kids_def\<close>)
qed

text \<open>The shape of the visible hierarchy is all that the tidy-tree placement of
  \<^verbatim>\<open>d3.tree\<close> depends on.\<close>

datatype shape = Shape "shape list"

fun shapeOf :: "tree \<Rightarrow> shape" where
  "shapeOf t = Shape (map shapeOf (kids t))"

declare shapeOf.simps [simp del]

record config =
  nodeWidth :: int
  nodeHeight :: int
  levelHeight :: int
  collapseEnabled :: bool

definition default_config :: config where
  "default_config = \<lparr>nodeWidth = 100, nodeHeight = 100, levelHeight = 200, collapseEnabled = True\<rparr>"

text \<open>
  A \<^verbatim>\<open>HierarchyPointNode\<close>: the data node it wraps and its coordinates. In the source
  \<^verbatim>\<open>data\<close> is a reference into the normalized tree; here \<open>ppath\<close> is the position of
  that object in the tree (the indices of the children arrays from the root) and
  \<open>pdata\<close> is its content at the time of the layout pass.
\<close>

record pnode =
  pdata :: tree
  ppath :: "nat list"
  pdepth :: nat
  px :: rat
  py :: rat

record link =
  source :: pnode
  target :: pnode

text \<open>The object at a position of the tree, following the visible children.\<close>

fun sub :: "tree \<Rightarrow> nat list \<Rightarrow> tree option" where
  "sub t [] = Some t"
| "sub t (i # p) = (if i < length (kids t) then sub (kids t ! i) p else None)"

text \<open>
  \<^verbatim>\<open>descendants()\<close> and \<^verbatim>\<open>links()\<close> of d3-hierarchy visit the nodes breadth first:
  one level after the other, each level in the order of the parents and of their
  children. \<open>bfs\<close> takes a level and returns it followed by all deeper levels.
\<close>

definition expand :: "nat list \<times> tree \<Rightarrow> (nat list \<times> tree) list" where
  "expand = (\<lambda>(p, t). map (\<lambda>i. (p @ [i], kids t ! i)) [0..<length (kids t)])"

definition weight :: "(nat list \<times> tree) list \<Rightarrow> nat" where
  "weight lvl = sum_list (map (\<lambda>(p, t). size t) lvl)"

lemma sum_size_list: "sum_list (map size ts) < Suc (size_list size ts)"
  for ts :: "tree list"
  by (induction ts) auto

lemma sum_size_kids: "sum_list (map size (kids t)) < size t"
proof (cases t)
  case (Tree v ch)
  show ?thesis
  proof (cases ch)
    case (JArr ts)
    have "sum_list (map size ts) < Suc (size_list size ts)"
      by (rule sum_size_list)
    with Tree JArr show ?thesis by (simp add: kids_def)
  qed (use Tree in \<open>simp_all add: kids_def\<close>)
qed

lemma weight_Cons: "weight ((p, t) # lvl) = size t + weight lvl"
  by (simp add: weight_def)

lemma weight_append: "weight (xs @ ys) = weight xs + weight ys"
  by (simp add: weight_def)

lemma weight_expand: "weight (expand (p, t)) < size t"
proof -
  have "map (\<lambda>(p, t). size t) (expand (p, t)) = map size (kids t)"
    by (rule nth_equalityI) (simp_all add: expand_def)
  then show ?thesis using sum_size_kids [of t] by (simp add: weight_def)
qed

lemma weight_next_le: "weight (concat (map expand lvl)) \<le> weight lvl"
proof (induction lvl)
  case Nil
  then show ?case by (simp add: weight_def)
next
  case (Cons a lvl)
  obtain p t where a: "a = (p, t)" by (cases a)
  have "weight (expand (p, t)) < size t" by (rule weight_expand)
  with Cons.IH show ?case
    by (simp add: a weight_Cons weight_append)
qed

lemma weight_next: "lvl \<noteq> [] \<Longrightarrow> weight (concat (map expand lvl)) < weight lvl"
proof (cases lvl)
  case Nil
  assume "lvl \<noteq> []"
  with Nil show ?thesis by simp
next
  case (Cons a rest)
  obtain p t where a: "a = (p, t)" by (cases a)
  have "weight (expand (p, t)) < size t" by (rule weight_expand)
  moreover have "weight (concat (map expand rest)) \<le> weight rest" by (rule weight_next_le)
  ultimately show ?thesis
    by (simp add: Cons a weight_Cons weight_append)
qed

function bfs :: "(nat list \<times> tree) list \<Rightarrow> (nat list \<times> tree) list" where
  "bfs lvl = (if lvl = [] then [] else lvl @ bfs (concat (map expand lvl)))"
  by pat_completeness auto
termination
  by (relation "measure weight") (auto simp: weight_next)

declare bfs.simps [simp del]

text \<open>
  \<^verbatim>\<open>d3.tree().nodeSize([nodeWidth, levelHeight])\<close> gives a node the vertical coordinate
  \<^verbatim>\<open>depth * levelHeight\<close> and the horizontal coordinate that the tidy-tree placement
  assigns, relative to the root and in units of \<^verbatim>\<open>nodeWidth\<close>. The placement itself is
  the library's: \<open>tidy\<close> stands for it, a function of the hierarchy's shape and of the
  position in it.
\<close>

definition positioned :: "(shape \<Rightarrow> nat list \<Rightarrow> rat) \<Rightarrow> config \<Rightarrow> tree \<Rightarrow> nat list \<times> tree \<Rightarrow> pnode" where
  "positioned tidy cfg rootNode = (\<lambda>(p, t).
     \<lparr>pdata = t, ppath = p, pdepth = length p,
      px = tidy (shapeOf rootNode) p * of_int (nodeWidth cfg),
      py = of_nat (length p) * of_int (levelHeight cfg)\<rparr>)"

text \<open>\<^verbatim>\<open>links()\<close>: one link per node other than the root, from its parent (the node
  at the position one step up) to the node.\<close>

definition linkTo :: "(shape \<Rightarrow> nat list \<Rightarrow> rat) \<Rightarrow> config \<Rightarrow> tree \<Rightarrow> nat list \<times> tree \<Rightarrow> link list" where
  "linkTo tidy cfg rootNode = (\<lambda>(p, t).
     case sub rootNode (butlast p) of
       None \<Rightarrow> []
     | Some parent \<Rightarrow>
         [\<lparr>source = positioned tidy cfg rootNode (butlast p, parent),
           target = positioned tidy cfg rootNode (p, t)\<rparr>])"

definition buildTree :: "(shape \<Rightarrow> nat list \<Rightarrow> rat) \<Rightarrow> config \<Rightarrow> tree \<Rightarrow> pnode list \<times> link list" where
  "buildTree tidy cfg rootNode =
     (let tree = bfs [([], rootNode)]
      in (map (positioned tidy cfg rootNode) tree,
          concat (map (linkTo tidy cfg rootNode) (tl tree))))"

text \<open>
  The state of the component that layout and collapsing work on: the configuration, the
  raw data set, the normalized tree (\<^verbatim>\<open>_dataset.value\<close>) and the two lists that the
  template renders.
\<close>

record chart =
  cfg :: config
  external_data :: external
  internal :: tree
  nodeDataList :: "pnode list"
  linkDataList :: "link list"

text \<open>
  \<^verbatim>\<open>draw\<close>, lines 121 to 129: lay the tree out, drop the first node
  (\<^verbatim>\<open>splice(0, 1)\<close>) and the links whose source payload has the name of the invisible
  root. The rest of the function joins the stored links with the path elements of the
  svg. It reads and changes those elements only, which are no part of this state; it is
  \<open>drawLinks\<close> below, and \<open>drawView\<close> is the function as a whole.
\<close>

definition draw :: "(shape \<Rightarrow> nat list \<Rightarrow> rat) \<Rightarrow> chart \<Rightarrow> chart" where
  "draw tidy s =
     (let (nodes, links) = buildTree tidy (cfg s) (internal s)
      in s\<lparr>nodeDataList := drop 1 nodes,
           linkDataList :=
             filter (\<lambda>x. get ''name'' (val (pdata (source x))) \<noteq> JStr ''__invisible_root'') links\<rparr>)"

text \<open>Mounting the component: normalize the data set once, then draw.\<close>

definition init :: "(nat \<Rightarrow> string) \<Rightarrow> (shape \<Rightarrow> nat list \<Rightarrow> rat) \<Rightarrow> config \<Rightarrow> external \<Rightarrow> chart" where
  "init uuid tidy c d =
     draw tidy \<lparr>cfg = c, external_data = d, internal = fst (updatedInternalData uuid d 0),
                nodeDataList = [], linkDataList = []\<rparr>"

section \<open>Collapsing and expanding: \<^verbatim>\<open>onClickNode\<close>\<close>

text \<open>What the handler does to the data object of the clicked node.\<close>

fun toggle :: "tree \<Rightarrow> tree" where
  "toggle (Tree v c) =
     (if truthy c
      then Tree (put ''_collapsed'' (JBool True) (put ''_children'' c v)) JNull
      else Tree (put ''_collapsed'' (JBool False) (put ''_children'' JNull v)) (get ''_children'' v))"

text \<open>
  The handler changes the object in place; in the tree that is a change at the object's
  position. The two agree as long as the object occurs once in the tree. \<^verbatim>\<open>deepCopy\<close>
  makes a new object for every node and a new array for every \<^verbatim>\<open>children\<close>, and a click
  moves the one reference to the array between \<^verbatim>\<open>children\<close> and \<^verbatim>\<open>value._children\<close>.
  Only a payload that brings its own \<^verbatim>\<open>_children\<close> array breaks this: the spread copies
  the reference, a click on a node without children makes the array the node's children,
  and its elements are then objects of the caller, which may hang under several nodes and
  which later clicks write to. The tree model shows neither, and \<open>external_data\<close> in the
  state below stays as it is. The theorems on what a click does to the tree and to a node's
  children in a reachable state are therefore stated for data in which no payload has an
  entry \<^verbatim>\<open>_children\<close>.
\<close>

fun modifyAt :: "nat list \<Rightarrow> (tree \<Rightarrow> tree) \<Rightarrow> tree \<Rightarrow> tree" where
  "modifyAt [] f t = f t"
| "modifyAt (i # p) f t =
     (if i < length (kids t)
      then Tree (val t) (JArr ((kids t)[i := modifyAt p f (kids t ! i)]))
      else t)"

datatype error = TypeError

text \<open>
  \<^verbatim>\<open>onClickNode(index)\<close>: \<^verbatim>\<open>nodeDataList.value[index]\<close> is undefined outside the list,
  and reading \<^verbatim>\<open>.data\<close> of it throws before anything is changed. The result is the
  state left behind and the exception, if one was thrown.
\<close>

definition onClickNode :: "(shape \<Rightarrow> nat list \<Rightarrow> rat) \<Rightarrow> chart \<Rightarrow> nat \<Rightarrow> chart \<times> error option" where
  "onClickNode tidy s index =
     (if collapseEnabled (cfg s) then
        (if index < length (nodeDataList s) then
           (let curNode = nodeDataList s ! index
            in (draw tidy (s\<lparr>internal := modifyAt (ppath curNode) toggle (internal s)\<rparr>), None))
         else (s, Some TypeError))
      else (s, None))"

text \<open>A sequence of clicks; a click that throws leaves the state as it was.\<close>

definition clicks :: "(shape \<Rightarrow> nat list \<Rightarrow> rat) \<Rightarrow> chart \<Rightarrow> nat list \<Rightarrow> chart" where
  "clicks tidy s is = foldl (\<lambda>s' i. fst (onClickNode tidy s' i)) s is"

text \<open>Parameters for concrete evaluations: a key generator that never repeats itself,
  and a placement that puts every node in the column of the root.\<close>

definition sample_uuid :: "nat \<Rightarrow> string" where
  "sample_uuid n = replicate (Suc n) CHR ''k''"

definition sample_tidy :: "shape \<Rightarrow> nat list \<Rightarrow> rat" where
  "sample_tidy sh p = 0"

section \<open>Nodes of the raw data and of the normalized tree\<close>

text \<open>All nodes of a raw tree, the node itself first.\<close>

fun rnodes :: "raw \<Rightarrow> raw list" where
  "rnodes (Raw v None) = [Raw v None]"
| "rnodes (Raw v (Some rs)) = Raw v (Some rs) # concat (map rnodes rs)"

definition forest_of :: "external \<Rightarrow> raw list" where
  "forest_of externalData = (case externalData of NoData \<Rightarrow> [] | Forest rs \<Rightarrow> rs | Single r \<Rightarrow> [r])"

text \<open>The nodes that \<^verbatim>\<open>d3.hierarchy\<close> reaches through \<^verbatim>\<open>children\<close>, the node itself
  first.\<close>

fun visible :: "tree \<Rightarrow> tree list" where
  "visible t = t # concat (map visible (kids t))"

declare visible.simps [simp del]

text \<open>The hidden children of a node are the array under \<^verbatim>\<open>value._children\<close>.\<close>

definition hidden :: "tree \<Rightarrow> tree list" where
  "hidden t = arr (get ''_children'' (val t))"

lemma size_entry: "(k, x) \<in> set v \<Longrightarrow> size x < Suc (size_list (size_prod (\<lambda>_. 0) size) v)"
  for x :: jsval
  by (induction v) auto

lemma size_hidden [termination_simp]: "c \<in> set (hidden t) \<Longrightarrow> size c < size t"
proof (cases t)
  case (Tree v ch)
  assume c: "c \<in> set (hidden t)"
  show ?thesis
  proof (cases "map_of v ''_children''")
    case None
    with c Tree show ?thesis by (simp add: hidden_def get_def)
  next
    case (Some x)
    then have mem: "(''_children'', x) \<in> set v" by (rule map_of_SomeD)
    show ?thesis
    proof (cases x)
      case (JArr ts)
      from c Tree Some JArr have "c \<in> set ts" by (simp add: hidden_def get_def)
      then have "size c < Suc (size_list size ts)" by (rule size_member)
      moreover from size_entry [OF mem] JArr
      have "Suc (size_list size ts) < Suc (size_list (size_prod (\<lambda>_. 0) size) v)" by simp
      ultimately show ?thesis using Tree by simp
    qed (use c Tree Some in \<open>simp_all add: hidden_def get_def\<close>)
  qed
qed

text \<open>Every node of the normalized tree, shown or hidden.\<close>

fun nodesOf :: "tree \<Rightarrow> tree list" where
  "nodesOf t = t # concat (map nodesOf (kids t)) @ concat (map nodesOf (hidden t))"

declare nodesOf.simps [simp del]

text \<open>The key of a node, \<^verbatim>\<open>value._key\<close>.\<close>

definition nodeKey :: "tree \<Rightarrow> jsval" where
  "nodeKey t = get ''_key'' (val t)"

section \<open>Predicates on states and trees\<close>

text \<open>A state is settled when it is the result of a layout pass and the root of its tree
  carries the payload of the synthetic root.\<close>

definition settled :: "(shape \<Rightarrow> nat list \<Rightarrow> rat) \<Rightarrow> chart \<Rightarrow> bool" where
  "settled tidy s = (draw tidy s = s \<and> val (internal s) = invisible_root)"

text \<open>A node is one-sided when \<^verbatim>\<open>children\<close> and \<^verbatim>\<open>value._children\<close> are not both
  present.\<close>

definition one_sided :: "tree \<Rightarrow> bool" where
  "one_sided t = (\<not> (truthy (children t) \<and> truthy (get ''_children'' (val t))))"

definition all_one_sided :: "tree \<Rightarrow> bool" where
  "all_one_sided t = (\<forall>n \<in> set (nodesOf t). one_sided n)"

text \<open>No payload of the raw data has an entry named \<open>k\<close>.\<close>

definition no_field :: "string \<Rightarrow> external \<Rightarrow> bool" where
  "no_field k d = (\<forall>r \<in> set (concat (map rnodes (forest_of d))). map_of (rvalue r) k = None)"


text \<open>What the emitted layout reads from the tree: which visible children every node has,
  and which payloads are named like the invisible root.\<close>

datatype skel = Skel bool "skel list"

fun skeleton :: "tree \<Rightarrow> skel" where
  "skeleton t = Skel (get ''name'' (val t) = JStr ''__invisible_root'') (map skeleton (kids t))"

declare skeleton.simps [simp del]

text \<open>Two entries of a traversal level are alike when they have the same position and
  their trees the same skeleton.\<close>

definition alike :: "nat list \<times> tree \<Rightarrow> nat list \<times> tree \<Rightarrow> bool" where
  "alike a b = (fst a = fst b \<and> skeleton (snd a) = skeleton (snd b))"

text \<open>The test of the link filter in \<^verbatim>\<open>draw\<close>.\<close>

definition kept :: "link \<Rightarrow> bool" where
  "kept x = (get ''name'' (val (pdata (source x))) \<noteq> JStr ''__invisible_root'')"

text \<open>The geometry of a positioned node and of a link.\<close>

definition place :: "pnode \<Rightarrow> nat list \<times> nat \<times> rat \<times> rat" where
  "place n = (ppath n, pdepth n, px n, py n)"

definition span :: "link \<Rightarrow> (nat list \<times> nat \<times> rat \<times> rat) \<times> (nat list \<times> nat \<times> rat \<times> rat)" where
  "span l = (place (source l), place (target l))"

section \<open>The join of the links with the rendered paths\<close>

text \<open>
  The second half of \<^verbatim>\<open>draw\<close> joins the new links with the elements that
  \<^verbatim>\<open>selectAll(".link")\<close> finds in the svg, through \<^verbatim>\<open>.data(links, key)\<close>. The key of a
  link is the template string \<^verbatim>\<open>`${d.source.data.value._key}-${d.target.data.value._key}`\<close>;
  \<open>toStr\<close> is the conversion to a string that the template applies.
\<close>

fun toStr :: "jsval \<Rightarrow> string" where
  "toStr JUndefined = ''undefined''"
| "toStr JNull = ''null''"
| "toStr (JBool b) = (if b then ''true'' else ''false'')"
| "toStr (JStr s) = s"
| "toStr (JArr ts) =
     (if ts = [] then [] else ''[object Object]'' @ concat (map (\<lambda>t. '',[object Object]'') (tl ts)))"

definition linkKey :: "link \<Rightarrow> string" where
  "linkKey d = toStr (get ''_key'' (val (pdata (source d)))) @ ''-'' @
               toStr (get ''_key'' (val (pdata (target d))))"

text \<open>The pair of keys that the template string is built from.\<close>

definition keyPair :: "link \<Rightarrow> jsval \<times> jsval" where
  "keyPair d = (nodeKey (pdata (source d)), nodeKey (pdata (target d)))"

text \<open>
  The keyed join of d3-selection, in its three loops. The first indexes the selected
  elements by key (an element whose key is taken already goes to exit); the second takes
  the data in order, binds a datum to the element of its key (update) and removes the key
  from the index, or makes the datum enter; the third sends every element still in the
  index to exit. \<open>rendered\<close> are the selected elements in document order, \<open>new_data\<close>
  the data; \<open>key\<close> reads the key of an element off its bound datum.
\<close>

fun firstByKey :: "(string \<times> nat) list \<Rightarrow> string list \<Rightarrow> nat \<Rightarrow> (string \<times> nat) list" where
  "firstByKey m [] i = m"
| "firstByKey m (k # ks) i =
     firstByKey (if map_of m k = None then m @ [(k, i)] else m) ks (Suc i)"

fun bindData :: "(string \<times> nat) list \<Rightarrow> (string \<times> 'd) list
    \<Rightarrow> 'd list \<times> (nat \<times> 'd) list \<times> (string \<times> nat) list" where
  "bindData m [] = ([], [], m)"
| "bindData m ((k, d) # r) =
     (case map_of m k of
        Some i \<Rightarrow>
          (let (en, up, m') = bindData (filter (\<lambda>(k', i'). k' \<noteq> k) m) r in (en, (i, d) # up, m'))
      | None \<Rightarrow>
          (let (en, up, m') = bindData m r in (d # en, up, m')))"

record 'd selection =
  enter_sel :: "'d list"
  update_sel :: "('d \<times> 'd) list"
  exit_sel :: "'d list"

definition bindKey :: "('d \<Rightarrow> string) \<Rightarrow> 'd list \<Rightarrow> 'd list \<Rightarrow> 'd selection" where
  "bindKey key rendered new_data =
     (let ks = map key rendered;
          m = firstByKey [] ks 0;
          (en, up, m') = bindData m (map (\<lambda>d. (key d, d)) new_data);
          ex = filter (\<lambda>i. map_of m (ks ! i) \<noteq> Some i \<or> map_of m' (ks ! i) = Some i)
                 [0..<length rendered]
      in \<lparr>enter_sel = en,
          update_sel = map (\<lambda>(i, d). (rendered ! i, d)) up,
          exit_sel = map (\<lambda>i. rendered ! i) ex\<rparr>)"

text \<open>
  A path element of the svg: its identity, the datum bound to it (\<^verbatim>\<open>__data__\<close>), whether
  it has the class \<^verbatim>\<open>link\<close>, and whether the last transition scheduled on it is the
  exit transition, which removes the element when it ends.
\<close>

record path =
  pid :: nat
  datum :: link
  classed :: bool
  leaving :: bool

text \<open>The component together with the paths of the svg in document order, and the
  number of identities handed out so far; a pass sets one aside for each of its links.\<close>

record view =
  component :: chart
  paths :: "path list"
  created :: nat

text \<open>
  The new links as the elements they become if they enter, with new identities:
  \<^verbatim>\<open>append("path")\<close> makes an element without a class, and the class is an attribute
  that the enter transition sets.
\<close>

definition candidates :: "nat \<Rightarrow> link list \<Rightarrow> path list" where
  "candidates n ls =
     map (\<lambda>(i, d). \<lparr>pid = n + i, datum = d, classed = False, leaving = False\<rparr>) (enumerate 0 ls)"

text \<open>\<^verbatim>\<open>svgRef.selectAll(".link").data(linkDataList.value, key)\<close>.\<close>

definition linkJoin :: "view \<Rightarrow> path selection" where
  "linkJoin v =
     bindKey (\<lambda>p. linkKey (datum p)) (filter classed (paths v))
       (candidates (created v) (linkDataList (component v)))"

text \<open>
  What the join and the transitions of \<^verbatim>\<open>draw\<close> do to an element that is there already.
  An updated element gets the new datum, and the transition scheduled on it keeps an
  earlier exit transition from removing it; an exiting element gets the exit transition;
  an element outside the selection is left alone.
\<close>

definition rebind :: "path selection \<Rightarrow> path \<Rightarrow> path" where
  "rebind sel p =
     (case find (\<lambda>(a, d). pid a = pid p) (update_sel sel) of
        Some (a, d) \<Rightarrow> p\<lparr>datum := datum d, leaving := False\<rparr>
      | None \<Rightarrow> if pid p \<in> set (map pid (exit_sel sel)) then p\<lparr>leaving := True\<rparr> else p)"

text \<open>
  \<^verbatim>\<open>enter().append("path")\<close>: d3 inserts an entering element before the element of the
  next datum that is updated, and at the end of the svg when no updated datum follows.
  \<open>appendEnter\<close> goes through the data in order, with the entering elements that wait for
  the next updated one.
\<close>

fun insertBefore :: "nat \<Rightarrow> path list \<Rightarrow> path list \<Rightarrow> path list" where
  "insertBefore i new [] = new"
| "insertBefore i new (p # ps) = (if pid p = i then new @ p # ps else p # insertBefore i new ps)"

fun appendEnter :: "(path \<times> path) list \<Rightarrow> path list \<Rightarrow> path list \<Rightarrow> path list \<Rightarrow> path list" where
  "appendEnter up elems pending [] = elems @ pending"
| "appendEnter up elems pending (c # cs) =
     (case find (\<lambda>(a, d). pid d = pid c) up of
        None \<Rightarrow> appendEnter up elems (pending @ [c]) cs
      | Some (a, d) \<Rightarrow> appendEnter up (insertBefore (pid a) pending elems) [] cs)"

text \<open>Lines 130 to 159 of \<^verbatim>\<open>draw\<close>, on the links that lines 121 to 129 have stored.\<close>

definition drawLinks :: "view \<Rightarrow> view" where
  "drawLinks v =
     (let links = linkJoin v
      in v\<lparr>paths := appendEnter (update_sel links) (map (rebind links) (paths v)) []
                       (candidates (created v) (linkDataList (component v))),
           created := created v + length (linkDataList (component v))\<rparr>)"

text \<open>The whole of \<^verbatim>\<open>draw\<close>, and mounting and a click with it in the place of its first
  half.\<close>

definition drawView :: "(shape \<Rightarrow> nat list \<Rightarrow> rat) \<Rightarrow> view \<Rightarrow> view" where
  "drawView tidy v = drawLinks (v\<lparr>component := draw tidy (component v)\<rparr>)"

definition mountView :: "(nat \<Rightarrow> string) \<Rightarrow> (shape \<Rightarrow> nat list \<Rightarrow> rat) \<Rightarrow> config \<Rightarrow> external \<Rightarrow> view" where
  "mountView uuid tidy c d =
     drawView tidy
       \<lparr>component = \<lparr>cfg = c, external_data = d, internal = fst (updatedInternalData uuid d 0),
                      nodeDataList = [], linkDataList = []\<rparr>,
        paths = [], created = 0\<rparr>"

definition clickView :: "(shape \<Rightarrow> nat list \<Rightarrow> rat) \<Rightarrow> view \<Rightarrow> nat \<Rightarrow> view \<times> error option" where
  "clickView tidy v index =
     (if collapseEnabled (cfg (component v)) then
        (if index < length (nodeDataList (component v)) then
           (let curNode = nodeDataList (component v) ! index
            in (drawView tidy
                  (v\<lparr>component := (component v)
                       \<lparr>internal := modifyAt (ppath curNode) toggle (internal (component v))\<rparr>\<rparr>),
                None))
         else (v, Some TypeError))
      else (v, None))"

text \<open>
  An animation frame. Every transition that \<^verbatim>\<open>draw\<close> has scheduled since the last frame
  starts and has its first tick, which is when the enter transition sets the class of its
  element; no pass selects the element before, so nothing interrupts that transition.
  \<open>ended\<close> names the elements whose transition ends in this frame; the end of an exit
  transition removes the element.
\<close>

definition frame :: "nat list \<Rightarrow> view \<Rightarrow> view" where
  "frame ended v =
     v\<lparr>paths := map (\<lambda>p. p\<lparr>classed := True\<rparr>)
                   (filter (\<lambda>p. \<not> (leaving p \<and> pid p \<in> set ended)) (paths v))\<rparr>"

text \<open>
  The paths are at rest when every transition has had its first tick and every exit
  transition has ended: all paths have the class, none is leaving, and they carry the
  links that the last pass has stored, each once. Their identities differ and are among
  those handed out.
\<close>

definition at_rest :: "view \<Rightarrow> bool" where
  "at_rest v =
     (list_all (\<lambda>p. classed p \<and> \<not> leaving p \<and> pid p < created v) (paths v) \<and>
      distinct (map pid (paths v)) \<and>
      mset (map datum (paths v)) = mset (linkDataList (component v)))"

text \<open>What there is to see of the paths: identity, key pair of the link, class, exit.\<close>

definition shown :: "view \<Rightarrow> (nat \<times> (jsval \<times> jsval) \<times> bool \<times> bool) list" where
  "shown v = map (\<lambda>p. (pid p, keyPair (datum p), classed p, leaving p)) (paths v)"

section \<open>Panning: \<^verbatim>\<open>enableDrag\<close>\<close>
















section \<open>Facts about payloads, positions and the traversal\<close>

lemma get_put_same: "get k (put k x v) = x"
  by (induction v) (auto simp: get_def)

lemma get_put_other: "k \<noteq> k' \<Longrightarrow> get k (put k' x v) = get k v"
  by (induction v) (auto simp: get_def)

lemma bfs_Nil: "bfs [] = []"
  by (simp add: bfs.simps)

lemma bfs_step: "lvl \<noteq> [] \<Longrightarrow> bfs lvl = lvl @ bfs (concat (map expand lvl))"
  by (subst bfs.simps) simp

lemma length_expand: "length (expand (p, t)) = length (kids t)"
  by (simp add: expand_def)

lemma nth_expand: "j < length (kids t) \<Longrightarrow> expand (p, t) ! j = (p @ [j], kids t ! j)"
  by (simp add: expand_def)

lemma kids_Tree: "kids (Tree v (JArr ts)) = ts"
  by (simp add: kids_def)

lemma sub_snoc: "sub r p = Some t \<Longrightarrow> j < length (kids t) \<Longrightarrow> sub r (p @ [j]) = Some (kids t ! j)"
  by (induction r p rule: sub.induct) (auto split: if_splits)

lemma sub_modifyAt: "sub t p = Some X \<Longrightarrow> sub (modifyAt p f t) p = Some (f X)"
  by (induction t p rule: sub.induct) (auto simp: kids_Tree split: if_splits)

lemma concat_nth_split:
  "m < length (concat xss) \<Longrightarrow>
     \<exists>n j. n < length xss \<and> j < length (xss ! n) \<and> m = length (concat (take n xss)) + j"
proof (induction xss arbitrary: m)
  case Nil
  then show ?case by simp
next
  case (Cons xs xss)
  show ?case
  proof (cases "m < length xs")
    case True
    then have "0 < length (xs # xss) \<and> m < length ((xs # xss) ! 0) \<and> m = length (concat (take 0 (xs # xss))) + m"
      by simp
    then show ?thesis by blast
  next
    case False
    with Cons.prems have "m - length xs < length (concat xss)" by simp
    from Cons.IH [OF this] obtain n j where
      nj: "n < length xss" "j < length (xss ! n)" "m - length xs = length (concat (take n xss)) + j"
      by blast
    with False have "Suc n < length (xs # xss) \<and> j < length ((xs # xss) ! Suc n)
        \<and> m = length (concat (take (Suc n) (xs # xss))) + j"
      by simp
    then show ?thesis by blast
  qed
qed

lemma concat_split_at:
  "n < length xss \<Longrightarrow> concat xss = concat (take n xss) @ xss ! n @ concat (drop (Suc n) xss)"
  by (metis append_take_drop_id concat.simps(2) concat_append Cons_nth_drop_Suc)

lemma concat_update:
  assumes "n < length xss"
  shows "concat (xss[n := ys]) = concat (take n xss) @ ys @ concat (drop (Suc n) xss)"
proof -
  have "xss[n := ys] = take n xss @ ys # drop (Suc n) xss"
    using assms by (rule upd_conv_take_nth_drop)
  then show ?thesis by simp
qed

lemma concat_update_nth:
  assumes n: "n < length xss" and j: "j < length (xss ! n)"
  shows "concat (xss[n := (xss ! n)[j := z]]) = (concat xss)[length (concat (take n xss)) + j := z]"
    and "concat xss ! (length (concat (take n xss)) + j) = xss ! n ! j"
proof -
  let ?A = "concat (take n xss)" and ?C = "concat (drop (Suc n) xss)"
  have a: "concat (xss[n := (xss ! n)[j := z]]) = ?A @ (xss ! n)[j := z] @ ?C"
    by (rule concat_update [OF n])
  have b: "concat xss = ?A @ xss ! n @ ?C"
    by (rule concat_split_at [OF n])
  have "(?A @ xss ! n @ ?C)[length ?A + j := z] = ?A @ (xss ! n)[j := z] @ ?C"
    using j by (simp add: list_update_append)
  with a b show "concat (xss[n := (xss ! n)[j := z]]) = (concat xss)[length ?A + j := z]"
    by simp
  have "(?A @ xss ! n @ ?C) ! (length ?A + j) = xss ! n ! j"
    using j by (simp add: nth_append)
  with b show "concat xss ! (length ?A + j) = xss ! n ! j" by simp
qed

lemma expand_modify:
  assumes "j < length (kids t)"
  shows "expand (q, modifyAt (j # p) f t) = (expand (q, t))[j := (q @ [j], modifyAt p f (kids t ! j))]"
  using assms by (intro nth_equalityI) (auto simp: expand_def kids_Tree nth_list_update)

lemma bfs_modify:
  "k < length (bfs lvl) \<Longrightarrow>
     \<exists>n q t p X. n < length lvl \<and> lvl ! n = (q, t) \<and> bfs lvl ! k = (q @ p, X) \<and> sub t p = Some X \<and>
       (\<forall>f. k < length (bfs (lvl[n := (q, modifyAt p f t)])) \<and>
            bfs (lvl[n := (q, modifyAt p f t)]) ! k = (q @ p, f X))"
proof (induction lvl arbitrary: k rule: bfs.induct)
  case (1 lvl)
  show ?case
  proof (cases "lvl = []")
    case True
    with "1.prems" show ?thesis by (simp add: bfs_Nil)
  next
    case ne: False
    let ?next = "concat (map expand lvl)"
    have unfold: "bfs lvl = lvl @ bfs ?next" using ne by (rule bfs_step)
    show ?thesis
    proof (cases "k < length lvl")
      case True
      obtain q t where qt: "lvl ! k = (q, t)" by (cases "lvl ! k")
      have "\<forall>f. k < length (bfs (lvl[k := (q, modifyAt [] f t)])) \<and>
            bfs (lvl[k := (q, modifyAt [] f t)]) ! k = (q @ [], f t)"
      proof
        fix f
        have "lvl[k := (q, modifyAt [] f t)] \<noteq> []" using ne by simp
        from bfs_step [OF this] True
        show "k < length (bfs (lvl[k := (q, modifyAt [] f t)])) \<and>
            bfs (lvl[k := (q, modifyAt [] f t)]) ! k = (q @ [], f t)"
          by (simp add: nth_append)
      qed
      moreover have "bfs lvl ! k = (q @ [], t)" using True qt unfold by (simp add: nth_append)
      moreover have "sub t [] = Some t" by simp
      ultimately show ?thesis using True qt by blast
    next
      case False
      define k' where "k' = k - length lvl"
      have k': "k' < length (bfs ?next)" using "1.prems" False unfold by (simp add: k'_def)
      from "1.IH" [OF ne k'] obtain m q' t' p' X where
        m: "m < length ?next" and nm: "?next ! m = (q', t')"
        and at: "bfs ?next ! k' = (q' @ p', X)" and sb: "sub t' p' = Some X"
        and upd: "\<And>f. k' < length (bfs (?next[m := (q', modifyAt p' f t')])) \<and>
                   bfs (?next[m := (q', modifyAt p' f t')]) ! k' = (q' @ p', f X)"
        by blast
      from concat_nth_split [OF m] obtain n j where
        n: "n < length lvl" and j: "j < length (map expand lvl ! n)"
        and mm: "m = length (concat (take n (map expand lvl))) + j"
        by auto
      obtain q t where qt: "lvl ! n = (q, t)" by (cases "lvl ! n")
      have jk: "j < length (kids t)" using j n qt by (simp add: length_expand)
      have n': "n < length (map expand lvl)" using n by simp
      have "?next ! m = map expand lvl ! n ! j"
        unfolding mm using concat_update_nth(2) [OF n' j] .
      then have "?next ! m = (q @ [j], kids t ! j)" using n qt jk by (simp add: nth_expand)
      with nm have q': "q' = q @ [j]" and t': "t' = kids t ! j" by simp_all
      have sub': "sub t (j # p') = Some X" using jk sb t' by simp
      have "\<forall>f. k < length (bfs (lvl[n := (q, modifyAt (j # p') f t)])) \<and>
            bfs (lvl[n := (q, modifyAt (j # p') f t)]) ! k = (q @ (j # p'), f X)"
      proof
        fix f
        let ?lvl' = "lvl[n := (q, modifyAt (j # p') f t)]"
        have ne': "?lvl' \<noteq> []" using ne by simp
        have "map expand ?lvl' = (map expand lvl)[n := (map expand lvl ! n)[j := (q', modifyAt p' f t')]]"
          using n qt expand_modify [OF jk, of q p' f] by (simp add: map_update q' t' del: modifyAt.simps)
        then have "concat (map expand ?lvl') = ?next[m := (q', modifyAt p' f t')]"
          unfolding mm using concat_update_nth(1) [OF n' j] by simp
        with bfs_step [OF ne'] have eq: "bfs ?lvl' = ?lvl' @ bfs (?next[m := (q', modifyAt p' f t')])"
          by simp
        have len: "length ?lvl' = length lvl" by simp
        from upd [of f] have u1: "k' < length (bfs (?next[m := (q', modifyAt p' f t')]))"
          and u2: "bfs (?next[m := (q', modifyAt p' f t')]) ! k' = (q' @ p', f X)" by simp_all
        have kk: "k = length lvl + k'" using False by (simp add: k'_def)
        have "k < length (bfs ?lvl')" unfolding eq length_append len kk using u1 by simp
        moreover have "bfs ?lvl' ! k = (q @ (j # p'), f X)"
          unfolding eq kk using u2 len by (simp add: nth_append q' del: modifyAt.simps)
        ultimately show "k < length (bfs ?lvl') \<and> bfs ?lvl' ! k = (q @ (j # p'), f X)"
          by simp
      qed
      moreover have "bfs lvl ! k = (q @ (j # p'), X)"
        using at False unfold by (simp add: nth_append k'_def q')
      ultimately show ?thesis using n qt sub' by blast
    qed
  qed
qed

lemma bfs_root_modify:
  assumes "k < length (bfs [([], T)])"
  obtains p X where "bfs [([], T)] ! k = (p, X)" and "sub T p = Some X"
    and "\<And>f. k < length (bfs [([], modifyAt p f T)]) \<and> bfs [([], modifyAt p f T)] ! k = (p, f X)"
proof -
  from bfs_modify [OF assms] obtain n q t p X where
    h: "n < length [([]::nat list, T)]" "[([], T)] ! n = (q, t)" "bfs [([], T)] ! k = (q @ p, X)"
       "sub t p = Some X"
       "\<And>f. k < length (bfs ([([], T)][n := (q, modifyAt p f t)])) \<and>
            bfs ([([], T)][n := (q, modifyAt p f t)]) ! k = (q @ p, f X)"
    by blast
  from h(1) have n0: "n = 0" by simp
  with h(2) have q: "q = []" and t: "t = T" by simp_all
  show thesis
  proof (rule that [of p X])
    show "bfs [([], T)] ! k = (p, X)" using h(3) q by simp
    show "sub T p = Some X" using h(4) t by simp
    show "k < length (bfs [([], modifyAt p f T)]) \<and> bfs [([], modifyAt p f T)] ! k = (p, f X)" for f
      using h(5) [of f] n0 q t by simp
  qed
qed

lemma bfs_root: "bfs [([], T)] = ([], T) # bfs (expand ([], T))"
  by (subst bfs.simps) simp

lemma draw_nodes:
  "nodeDataList (draw tidy s) = map (positioned tidy (cfg s) (internal s)) (tl (bfs [([], internal s)]))"
  by (simp add: draw_def buildTree_def Let_def drop_Suc map_tl)

lemma draw_links:
  "linkDataList (draw tidy s) =
     filter (\<lambda>x. get ''name'' (val (pdata (source x))) \<noteq> JStr ''__invisible_root'')
       (concat (map (linkTo tidy (cfg s) (internal s)) (tl (bfs [([], internal s)]))))"
  by (simp add: draw_def buildTree_def Let_def)

lemma draw_frame [simp]:
  "cfg (draw tidy s) = cfg s" "internal (draw tidy s) = internal s"
  "external_data (draw tidy s) = external_data s"
  by (simp_all add: draw_def Let_def split_def)

lemma draw_draw: "draw tidy (draw tidy s) = draw tidy s"
  by (simp add: draw_def Let_def split_def)

lemma draw_internal_update:
  "draw tidy ((draw tidy s)\<lparr>internal := T\<rparr>) = draw tidy (s\<lparr>internal := T\<rparr>)"
  by (simp add: draw_def Let_def split_def)

lemma positioned_sel [simp]:
  "ppath (positioned tidy c r (p, t)) = p" "pdata (positioned tidy c r (p, t)) = t"
  by (simp_all add: positioned_def)

lemma click_node:
  assumes en: "collapseEnabled (cfg s)" and i: "i < length (nodeDataList (draw tidy s))"
  obtains p X where
    "ppath (nodeDataList (draw tidy s) ! i) = p" and "pdata (nodeDataList (draw tidy s) ! i) = X"
    and "sub (internal s) p = Some X"
    and "onClickNode tidy (draw tidy s) i = (draw tidy (s\<lparr>internal := modifyAt p toggle (internal s)\<rparr>), None)"
    and "sub (modifyAt p toggle (internal s)) p = Some (toggle X)"
    and "i < length (nodeDataList (draw tidy (s\<lparr>internal := modifyAt p toggle (internal s)\<rparr>)))"
    and "ppath (nodeDataList (draw tidy (s\<lparr>internal := modifyAt p toggle (internal s)\<rparr>)) ! i) = p"
    and "pdata (nodeDataList (draw tidy (s\<lparr>internal := modifyAt p toggle (internal s)\<rparr>)) ! i) = toggle X"
proof -
  let ?T = "internal s"
  from i have k: "Suc i < length (bfs [([], ?T)])" by (simp add: draw_nodes)
  from bfs_root_modify [OF k] obtain p X where
    at: "bfs [([], ?T)] ! Suc i = (p, X)" and sb: "sub ?T p = Some X"
    and md: "\<And>f. Suc i < length (bfs [([], modifyAt p f ?T)]) \<and> bfs [([], modifyAt p f ?T)] ! Suc i = (p, f X)"
    by blast
  have nd: "nodeDataList (draw tidy s) ! i = positioned tidy (cfg s) ?T (p, X)"
    using i k at by (simp add: draw_nodes nth_tl)
  let ?s' = "s\<lparr>internal := modifyAt p toggle ?T\<rparr>"
  from md [of toggle] have k': "Suc i < length (bfs [([], modifyAt p toggle ?T)])"
    and at': "bfs [([], modifyAt p toggle ?T)] ! Suc i = (p, toggle X)" by simp_all
  have i': "i < length (nodeDataList (draw tidy ?s'))"
    using k' by (simp add: draw_nodes)
  have nd': "nodeDataList (draw tidy ?s') ! i = positioned tidy (cfg s) (modifyAt p toggle ?T) (p, toggle X)"
    using k' at' by (simp add: draw_nodes nth_tl)
  show thesis
  proof (rule that [of p X])
    show "ppath (nodeDataList (draw tidy s) ! i) = p" by (simp add: nd)
    show "pdata (nodeDataList (draw tidy s) ! i) = X" by (simp add: nd)
    show "sub ?T p = Some X" by (rule sb)
    show "onClickNode tidy (draw tidy s) i = (draw tidy ?s', None)"
      using en i by (simp add: onClickNode_def Let_def nd draw_internal_update)
    show "sub (modifyAt p toggle ?T) p = Some (toggle X)" using sb by (rule sub_modifyAt)
    show "i < length (nodeDataList (draw tidy ?s'))" by (rule i')
    show "ppath (nodeDataList (draw tidy ?s') ! i) = p" by (simp add: nd')
    show "pdata (nodeDataList (draw tidy ?s') ! i) = toggle X" by (simp add: nd')
  qed
qed



section \<open>Two clicks on the same rendered node\<close>


section \<open>A click that names no rendered node\<close>

text \<open>
  Claim C7, as the code has it. The handler takes the position of a node in the rendered
  list, not a key. With collapsing enabled and a position outside the list, the handler
  throws a TypeError and leaves the whole state (normalized tree, node list, link list)
  as it was; with collapsing disabled it returns without an exception or a change.
\<close>

theorem click_outside_list:
  "(collapseEnabled (cfg s) \<and> length (nodeDataList s) \<le> i \<longrightarrow>
      onClickNode tidy s i = (s, Some TypeError)) \<and>
   (\<not> collapseEnabled (cfg s) \<longrightarrow> onClickNode tidy s i = (s, None))"
  by (simp add: onClickNode_def)

theorem click_outside_list_witness:
  "onClickNode sample_tidy (init sample_uuid sample_tidy default_config dataset) 7 =
     (init sample_uuid sample_tidy default_config dataset, Some TypeError) \<and>
   onClickNode sample_tidy \<lparr>cfg = default_config\<lparr>collapseEnabled := False\<rparr>, external_data = NoData,
       internal = Tree [] JNull, nodeDataList = [], linkDataList = []\<rparr> 0 =
     (\<lparr>cfg = default_config\<lparr>collapseEnabled := False\<rparr>, external_data = NoData,
       internal = Tree [] JNull, nodeDataList = [], linkDataList = []\<rparr>, None)"
proof -
  let ?tidy = "sample_tidy"
  let ?s = "init sample_uuid ?tidy default_config dataset"
  let ?d = "\<lparr>cfg = default_config\<lparr>collapseEnabled := False\<rparr>, external_data = NoData,
       internal = Tree [] JNull, nodeDataList = [], linkDataList = []\<rparr>"
  have a: "collapseEnabled (cfg ?s) \<and> length (nodeDataList ?s) \<le> 7" by code_simp
  have b: "\<not> collapseEnabled (cfg ?d)" by (simp add: default_config_def)
  from click_outside_list [of ?s 7 ?tidy] a have "onClickNode ?tidy ?s 7 = (?s, Some TypeError)" by blast
  moreover from click_outside_list [of ?d 0 ?tidy] b have "onClickNode ?tidy ?d 0 = (?d, None)" by blast
  ultimately show ?thesis by simp
qed

text \<open>
  Claim C7 as stated fails: for the component's data set, whose rendered list has five
  nodes, a click at position 7 raises a TypeError instead of returning silently.
\<close>

theorem click_unknown_raises:
  "snd (onClickNode sample_tidy (init sample_uuid sample_tidy default_config dataset) 7)
     = Some TypeError"
  by code_simp

section \<open>A node with an empty children array\<close>

text \<open>
  Claim C10. Copying a raw node whose children are the empty array gives a node whose
  children are the empty array (present, not undefined). Clicking a rendered node whose
  children are the empty array raises nothing and changes the node: its children become
  null, \<^verbatim>\<open>value._children\<close> holds the empty array and \<^verbatim>\<open>value._collapsed\<close> is
  true; the normalized tree holds that node at the same position.
\<close>

theorem empty_children_present_and_collapsible:
  "children (fst (deepCopy uuid (Raw v (Some [])) n)) = JArr [] \<and>
   (collapseEnabled (cfg s) \<and> i < length (nodeDataList (draw tidy s)) \<and>
    children (pdata (nodeDataList (draw tidy s) ! i)) = JArr [] \<longrightarrow>
      (let s0 = draw tidy s; s1 = fst (onClickNode tidy s0 i)
       in snd (onClickNode tidy s0 i) = None \<and>
          i < length (nodeDataList s1) \<and>
          ppath (nodeDataList s1 ! i) = ppath (nodeDataList s0 ! i) \<and>
          pdata (nodeDataList s1 ! i) \<noteq> pdata (nodeDataList s0 ! i) \<and>
          children (pdata (nodeDataList s1 ! i)) = JNull \<and>
          get ''_children'' (val (pdata (nodeDataList s1 ! i))) = JArr [] \<and>
          get ''_collapsed'' (val (pdata (nodeDataList s1 ! i))) = JBool True \<and>
          sub (internal s1) (ppath (nodeDataList s0 ! i)) = Some (pdata (nodeDataList s1 ! i))))"
proof (intro conjI impI)
  show "children (fst (deepCopy uuid (Raw v (Some [])) n)) = JArr []" by simp
next
  assume h: "collapseEnabled (cfg s) \<and> i < length (nodeDataList (draw tidy s)) \<and>
    children (pdata (nodeDataList (draw tidy s) ! i)) = JArr []"
  then have en: "collapseEnabled (cfg s)" and i: "i < length (nodeDataList (draw tidy s))"
    and cs: "children (pdata (nodeDataList (draw tidy s) ! i)) = JArr []" by simp_all
  from click_node [OF en i] obtain p X where
    p: "ppath (nodeDataList (draw tidy s) ! i) = p"
    and X: "pdata (nodeDataList (draw tidy s) ! i) = X"
    and c1: "onClickNode tidy (draw tidy s) i = (draw tidy (s\<lparr>internal := modifyAt p toggle (internal s)\<rparr>), None)"
    and sb: "sub (modifyAt p toggle (internal s)) p = Some (toggle X)"
    and i1: "i < length (nodeDataList (draw tidy (s\<lparr>internal := modifyAt p toggle (internal s)\<rparr>)))"
    and p1: "ppath (nodeDataList (draw tidy (s\<lparr>internal := modifyAt p toggle (internal s)\<rparr>)) ! i) = p"
    and X1: "pdata (nodeDataList (draw tidy (s\<lparr>internal := modifyAt p toggle (internal s)\<rparr>)) ! i) = toggle X"
    by metis
  have cX: "children X = JArr []" using cs X by simp
  then have t: "children (toggle X) = JNull" "get ''_children'' (val (toggle X)) = JArr []"
    "get ''_collapsed'' (val (toggle X)) = JBool True"
    by (cases X; simp add: get_put_same get_put_other)+
  from t(1) cX have ne: "toggle X \<noteq> X" by auto
  show "let s0 = draw tidy s; s1 = fst (onClickNode tidy s0 i)
       in snd (onClickNode tidy s0 i) = None \<and>
          i < length (nodeDataList s1) \<and>
          ppath (nodeDataList s1 ! i) = ppath (nodeDataList s0 ! i) \<and>
          pdata (nodeDataList s1 ! i) \<noteq> pdata (nodeDataList s0 ! i) \<and>
          children (pdata (nodeDataList s1 ! i)) = JNull \<and>
          get ''_children'' (val (pdata (nodeDataList s1 ! i))) = JArr [] \<and>
          get ''_collapsed'' (val (pdata (nodeDataList s1 ! i))) = JBool True \<and>
          sub (internal s1) (ppath (nodeDataList s0 ! i)) = Some (pdata (nodeDataList s1 ! i))"
    unfolding Let_def c1 fst_conv snd_conv
    using i1 p X p1 X1 sb t ne by simp
qed

theorem empty_children_present_and_collapsible_witness:
  "let tidy = sample_tidy;
       s0 = draw tidy (init sample_uuid tidy default_config
              (Single (Raw [(''label'', JStr ''1'')] (Some []))));
       s1 = fst (onClickNode tidy s0 0)
   in children (pdata (nodeDataList s0 ! 0)) = JArr [] \<and>
      children (pdata (nodeDataList s1 ! 0)) = JNull \<and>
      get ''_children'' (val (pdata (nodeDataList s1 ! 0))) = JArr [] \<and>
      get ''_collapsed'' (val (pdata (nodeDataList s1 ! 0))) = JBool True"
proof -
  let ?tidy = "sample_tidy"
  let ?s = "init sample_uuid ?tidy default_config
              (Single (Raw [(''label'', JStr ''1'')] (Some [])))"
  have h: "collapseEnabled (cfg ?s) \<and> 0 < length (nodeDataList (draw ?tidy ?s)) \<and>
    children (pdata (nodeDataList (draw ?tidy ?s) ! 0)) = JArr []" by code_simp
  from empty_children_present_and_collapsible [of sample_uuid "[]" 0 ?s 0 ?tidy] h
  show ?thesis by (simp add: Let_def)
qed

section \<open>Reachable states\<close>

lemma bfs_sub:
  "\<forall>(p, t) \<in> set lvl. sub r p = Some t \<Longrightarrow> \<forall>(p, t) \<in> set (bfs lvl). sub r p = Some t"
proof (induction lvl rule: bfs.induct)
  case (1 lvl)
  show ?case
  proof (cases "lvl = []")
    case True
    then show ?thesis by (simp add: bfs_Nil)
  next
    case False
    have "\<forall>(p, t) \<in> set (concat (map expand lvl)). sub r p = Some t"
      using "1.prems" by (auto simp: expand_def sub_snoc)
    from "1.IH" [OF False this] "1.prems" show ?thesis
      by (subst bfs_step [OF False]) auto
  qed
qed

lemma bfs_paths_nonempty:
  "\<forall>(p, t) \<in> set lvl. p \<noteq> [] \<Longrightarrow> \<forall>(p, t) \<in> set (bfs lvl). p \<noteq> []"
proof (induction lvl rule: bfs.induct)
  case (1 lvl)
  show ?case
  proof (cases "lvl = []")
    case True
    then show ?thesis by (simp add: bfs_Nil)
  next
    case False
    have "\<forall>(p, t) \<in> set (concat (map expand lvl)). p \<noteq> []"
      by (auto simp: expand_def)
    from "1.IH" [OF False this] "1.prems" show ?thesis
      by (subst bfs_step [OF False]) auto
  qed
qed

lemma bfs_root_sub: "(p, t) \<in> set (bfs [([], T)]) \<Longrightarrow> sub T p = Some t"
  using bfs_sub [of "[([], T)]" T] by auto

lemma bfs_tl_nonempty: "(p, t) \<in> set (tl (bfs [([], T)])) \<Longrightarrow> p \<noteq> []"
  using bfs_paths_nonempty [of "expand ([], T)"] by (auto simp: bfs_root expand_def)

lemma nodes_path_nonempty: "n \<in> set (nodeDataList (draw tidy s)) \<Longrightarrow> ppath n \<noteq> []"
  by (auto simp: draw_nodes dest: bfs_tl_nonempty)

lemma val_modifyAt: "p \<noteq> [] \<Longrightarrow> val (modifyAt p f t) = val t"
  by (cases p) auto

lemma val_updatedInternalData: "val (fst (updatedInternalData uuid d n)) = invisible_root"
  by (cases d) (simp_all add: updatedInternalData_def split_def Let_def)

lemma settled_init: "settled tidy (init uuid tidy c d)"
  by (simp add: settled_def init_def draw_draw val_updatedInternalData)

lemma settled_click:
  assumes "settled tidy s"
  shows "settled tidy (fst (onClickNode tidy s i))"
proof (cases "collapseEnabled (cfg s) \<and> i < length (nodeDataList s)")
  case False
  with assms show ?thesis by (auto simp: onClickNode_def)
next
  case True
  from assms have d: "draw tidy s = s" and v: "val (internal s) = invisible_root"
    by (simp_all add: settled_def)
  from True d have "nodeDataList s ! i \<in> set (nodeDataList (draw tidy s))" by simp
  then have "ppath (nodeDataList s ! i) \<noteq> []" by (rule nodes_path_nonempty)
  then show ?thesis using True v
    by (simp add: settled_def onClickNode_def Let_def draw_draw val_modifyAt)
qed

lemma settled_clicks: "settled tidy s \<Longrightarrow> settled tidy (clicks tidy s is)"
  unfolding clicks_def by (induction "is" arbitrary: s) (simp_all add: settled_click)

lemma settled_reachable: "settled tidy (clicks tidy (init uuid tidy c d) is)"
  by (rule settled_clicks [OF settled_init])

lemma cfg_click: "cfg (fst (onClickNode tidy s i)) = cfg s"
  by (simp add: onClickNode_def Let_def)

lemma cfg_clicks: "cfg (clicks tidy s is) = cfg s"
  unfolding clicks_def by (induction "is" arbitrary: s) (simp_all add: cfg_click)

lemma cfg_init: "cfg (init uuid tidy c d) = c"
  by (simp add: init_def)

lemma reachable_drawn:
  "draw tidy (clicks tidy (init uuid tidy c d) is) = clicks tidy (init uuid tidy c d) is"
  using settled_reachable [of tidy uuid c d "is"] by (simp add: settled_def)



section \<open>What a layout pass emits\<close>




section \<open>Children and hidden children\<close>

lemma map_of_put: "map_of (put k x m) k' = (if k' = k then Some x else map_of m k')"
  by (induction m) auto

lemma map_of_spread:
  "map_of v k = None \<Longrightarrow> map_of (fold (\<lambda>(k, x). put k x) v acc) k = map_of acc k"
proof (induction v arbitrary: acc)
  case Nil
  then show ?case by simp
next
  case (Cons a v)
  obtain k' x where a: "a = (k', x)" by (cases a)
  from Cons.prems a have "k' \<noteq> k" and "map_of v k = None" by (auto split: if_splits)
  with Cons.IH [of "put k' x acc"] show ?case by (simp add: a map_of_put)
qed

lemma truthy_kids: "kids t \<noteq> [] \<Longrightarrow> truthy (children t)"
  by (cases "children t") (auto simp: kids_def)

lemma truthy_hidden: "hidden t \<noteq> [] \<Longrightarrow> truthy (get ''_children'' (val t))"
  by (cases "get ''_children'' (val t)") (auto simp: hidden_def)

lemma all_one_sided_iff:
  "all_one_sided t \<longleftrightarrow>
     one_sided t \<and> (\<forall>c \<in> set (kids t). all_one_sided c) \<and> (\<forall>c \<in> set (hidden t). all_one_sided c)"
  unfolding all_one_sided_def by (subst nodesOf.simps) auto

lemma kids_simps [simp]:
  "kids (Tree v (JArr ts)) = ts" "kids (Tree v JNull) = []" "kids (Tree v JUndefined) = []"
  by (simp_all add: kids_def)

lemma copy_one_sided:
  "(\<forall>r' \<in> set (rnodes r). map_of (rvalue r') ''_children'' = None) \<Longrightarrow>
     all_one_sided (fst (deepCopy uuid r n))"
  "(\<forall>r' \<in> set (concat (map rnodes rs)). map_of (rvalue r') ''_children'' = None) \<Longrightarrow>
     (\<forall>c \<in> set (fst (deepCopies uuid rs n)). all_one_sided c)"
proof (induction uuid r n and uuid rs n rule: deepCopy_deepCopies.induct)
  case (1 uuid v cs n)
  have v: "map_of v ''_children'' = None" using "1.prems" by (cases cs) auto
  have g: "get ''_children'' (fold (\<lambda>(k, x). put k x) v [(''_key'', JStr (uuid n))]) = JUndefined"
    by (simp add: get_def map_of_spread [OF v])
  show ?case
  proof (cases cs)
    case None
    then show ?thesis
      by (subst all_one_sided_iff) (simp add: one_sided_def hidden_def g)
  next
    case (Some rs)
    obtain ts n' where ts: "deepCopies uuid rs (Suc n) = (ts, n')"
      by (cases "deepCopies uuid rs (Suc n)")
    have "\<forall>c \<in> set (fst (deepCopies uuid rs (Suc n))). all_one_sided c"
      using "1.IH" [OF refl Some] "1.prems" Some by simp
    then show ?thesis using Some ts
      by (subst all_one_sided_iff) (simp add: one_sided_def hidden_def g)
  qed
next
  case (2 uuid n)
  then show ?case by simp
next
  case (3 uuid r rs n)
  obtain t n1 where t: "deepCopy uuid r n = (t, n1)" by (cases "deepCopy uuid r n")
  obtain ts n2 where ts: "deepCopies uuid rs n1 = (ts, n2)" by (cases "deepCopies uuid rs n1")
  have "all_one_sided t" using "3.IH"(1) "3.prems" t by simp
  moreover have "\<forall>c \<in> set ts. all_one_sided c"
    using "3.IH"(2) [OF t [symmetric] refl] "3.prems" ts by simp
  ultimately show ?case by (simp add: t ts)
qed

lemma copyLoop_deepCopies:
  "i \<le> length rs \<Longrightarrow>
     copyLoop uuid rs i cs n =
       (cs @ fst (deepCopies uuid (rev (take i rs)) n), snd (deepCopies uuid (rev (take i rs)) n))"
proof (induction i arbitrary: cs n)
  case 0
  then show ?case by simp
next
  case (Suc i)
  then have i: "i < length rs" by simp
  obtain t n' where t: "deepCopy uuid (rs ! i) n = (t, n')" by (cases "deepCopy uuid (rs ! i) n")
  have "rev (take (Suc i) rs) = rs ! i # rev (take i rs)"
    using i by (simp add: take_Suc_conv_app_nth)
  with Suc.IH [of "cs @ [t]" n'] i t show ?case
    by (simp add: split_def Let_def)
qed

lemma updatedInternalData_eq:
  "updatedInternalData uuid d n =
     (Tree invisible_root (JArr (fst (deepCopies uuid (rev (forest_of d)) n))),
      snd (deepCopies uuid (rev (forest_of d)) n))"
  by (cases d) (simp_all add: updatedInternalData_def forest_of_def copyLoop_deepCopies split_def Let_def)

lemma normalized_one_sided:
  assumes "no_field ''_children'' d"
  shows "all_one_sided (fst (updatedInternalData uuid d n))"
proof -
  have "\<forall>r' \<in> set (concat (map rnodes (rev (forest_of d)))). map_of (rvalue r') ''_children'' = None"
    using assms by (auto simp: no_field_def)
  from copy_one_sided(2) [OF this]
  show ?thesis
    by (subst all_one_sided_iff)
       (simp add: updatedInternalData_eq one_sided_def hidden_def get_def invisible_root_def)
qed

lemma toggle_one_sided: "all_one_sided X \<Longrightarrow> all_one_sided (toggle X)"
proof -
  assume a: "all_one_sided X"
  obtain v c where X: "X = Tree v c" by (cases X)
  from a have k: "\<forall>t \<in> set (kids X). all_one_sided t" and h: "\<forall>t \<in> set (hidden X). all_one_sided t"
    by (subst (asm) all_one_sided_iff, simp)+
  show ?thesis
  proof (cases "truthy c")
    case True
    have "hidden (toggle X) = kids X"
      using True by (simp add: X hidden_def kids_def get_put_same get_put_other)
    with k True show ?thesis
      by (subst all_one_sided_iff) (simp add: X one_sided_def)
  next
    case False
    have "hidden (toggle X) = []" "kids (toggle X) = hidden X"
      using False by (simp_all add: X hidden_def kids_def get_put_same get_put_other)
    with h False show ?thesis
      by (subst all_one_sided_iff) (simp add: X one_sided_def get_put_same get_put_other)
  qed
qed

lemma modifyAt_one_sided:
  "all_one_sided t \<Longrightarrow> (\<And>X. all_one_sided X \<Longrightarrow> all_one_sided (f X)) \<Longrightarrow> all_one_sided (modifyAt p f t)"
proof (induction p arbitrary: t)
  case Nil
  then show ?case by simp
next
  case (Cons i p)
  show ?case
  proof (cases "i < length (kids t)")
    case False
    with Cons.prems show ?thesis by simp
  next
    case True
    from Cons.prems(1) have o: "one_sided t" and k: "\<forall>c \<in> set (kids t). all_one_sided c"
      and h: "\<forall>c \<in> set (hidden t). all_one_sided c"
      by (subst (asm) all_one_sided_iff, simp)+
    from True have "kids t \<noteq> []" by auto
    then have "truthy (children t)" by (rule truthy_kids)
    with o have nh: "\<not> truthy (get ''_children'' (val t))" by (simp add: one_sided_def)
    have "all_one_sided (kids t ! i)" using k True by simp
    then have "all_one_sided (modifyAt p f (kids t ! i))" using Cons.prems(2) by (rule Cons.IH)
    with k have k': "\<forall>c \<in> set ((kids t)[i := modifyAt p f (kids t ! i)]). all_one_sided c"
      by (auto dest!: set_update_subset_insert [THEN subsetD])
    show ?thesis using True k' h nh
      by (subst all_one_sided_iff) (simp add: one_sided_def hidden_def)
  qed
qed

lemma click_one_sided:
  "all_one_sided (internal s) \<Longrightarrow> all_one_sided (internal (fst (onClickNode tidy s i)))"
  by (simp add: onClickNode_def Let_def modifyAt_one_sided toggle_one_sided)

lemma clicks_one_sided:
  "all_one_sided (internal s) \<Longrightarrow> all_one_sided (internal (clicks tidy s is))"
  unfolding clicks_def by (induction "is" arbitrary: s) (simp_all add: click_one_sided)

text \<open>
  Claim C5, as the code has it. Let no payload of the raw data have an entry named
  \<^verbatim>\<open>_children\<close>. Then in every state reached by normalization and any sequence of
  clicks, every node of the normalized tree, shown or hidden, has at most one of
  \<^verbatim>\<open>children\<close> and \<^verbatim>\<open>value._children\<close> present (truthy), so at most one of them has
  elements: a node with descendants has exactly one of them populated, and a node
  without descendants has neither.
\<close>

theorem children_or_hidden:
  assumes "no_field ''_children'' d"
  shows "\<forall>n \<in> set (nodesOf (internal (clicks tidy (init uuid tidy c d) is))).
           \<not> (truthy (children n) \<and> truthy (get ''_children'' (val n))) \<and>
           \<not> (kids n \<noteq> [] \<and> hidden n \<noteq> []) \<and>
           (kids n \<noteq> [] \<or> hidden n \<noteq> [] \<longrightarrow> (kids n \<noteq> []) \<noteq> (hidden n \<noteq> []))"
proof -
  have "all_one_sided (internal (init uuid tidy c d))"
    using normalized_one_sided [OF assms] by (simp add: init_def)
  then have "all_one_sided (internal (clicks tidy (init uuid tidy c d) is))"
    by (rule clicks_one_sided)
  then have all: "\<And>n. n \<in> set (nodesOf (internal (clicks tidy (init uuid tidy c d) is))) \<Longrightarrow> one_sided n"
    by (simp add: all_one_sided_def)
  show ?thesis
  proof
    fix n assume "n \<in> set (nodesOf (internal (clicks tidy (init uuid tidy c d) is)))"
    then have o: "\<not> (truthy (children n) \<and> truthy (get ''_children'' (val n)))"
      using all by (simp add: one_sided_def)
    have "kids n \<noteq> [] \<and> hidden n \<noteq> [] \<Longrightarrow> False"
      using o truthy_kids [of n] truthy_hidden [of n] by blast
    then have b: "\<not> (kids n \<noteq> [] \<and> hidden n \<noteq> [])" by blast
    from o b show "\<not> (truthy (children n) \<and> truthy (get ''_children'' (val n))) \<and>
           \<not> (kids n \<noteq> [] \<and> hidden n \<noteq> []) \<and>
           (kids n \<noteq> [] \<or> hidden n \<noteq> [] \<longrightarrow> (kids n \<noteq> []) \<noteq> (hidden n \<noteq> []))"
      by blast
  qed
qed

theorem children_or_hidden_witness:
  "no_field ''_children'' dataset \<and>
   map (\<lambda>n. (get ''label'' (val n), kids n \<noteq> [], hidden n \<noteq> []))
     (nodesOf (internal (clicks sample_tidy (init sample_uuid sample_tidy default_config dataset) [1, 4]))) =
     [(JUndefined, True, False), (JStr ''1'', True, False), (JStr ''2'', False, True),
      (JStr ''3'', False, False), (JStr ''4'', False, False), (JStr ''5'', False, False)] \<and>
   \<not> (truthy (children (nodesOf (internal (clicks sample_tidy
          (init sample_uuid sample_tidy default_config dataset) [1, 4])) ! 2)) \<and>
      truthy (get ''_children'' (val (nodesOf (internal (clicks sample_tidy
          (init sample_uuid sample_tidy default_config dataset) [1, 4])) ! 2))))"
proof -
  let ?ns = "nodesOf (internal (clicks sample_tidy (init sample_uuid sample_tidy default_config dataset) [1, 4]))"
  have a: "no_field ''_children'' dataset" by code_simp
  have b: "map (\<lambda>n. (get ''label'' (val n), kids n \<noteq> [], hidden n \<noteq> [])) ?ns =
     [(JUndefined, True, False), (JStr ''1'', True, False), (JStr ''2'', False, True),
      (JStr ''3'', False, False), (JStr ''4'', False, False), (JStr ''5'', False, False)]"
    by code_simp
  from arg_cong [OF b, of length] have "length ?ns = 6" by simp
  then have "?ns ! 2 \<in> set ?ns" by simp
  with children_or_hidden [OF a, of sample_tidy sample_uuid default_config "[1, 4]"]
  have "\<not> (truthy (children (?ns ! 2)) \<and> truthy (get ''_children'' (val (?ns ! 2))))" by blast
  with a b show ?thesis by blast
qed

text \<open>
  Claim C5 as stated fails for a payload that has its own \<^verbatim>\<open>_children\<close>: the copy keeps
  the entry, so right after normalization the node has both children and hidden
  children.
\<close>

theorem payload_children_both_populated:
  "kids (kids (internal (init sample_uuid sample_tidy default_config
      (Single (Raw [(''_children'', JArr [Tree [] JUndefined])] (Some [Raw [] None]))))) ! 0) \<noteq> [] \<and>
   hidden (kids (internal (init sample_uuid sample_tidy default_config
      (Single (Raw [(''_children'', JArr [Tree [] JUndefined])] (Some [Raw [] None]))))) ! 0) \<noteq> []"
  by code_simp

section \<open>Collapsing twice\<close>




section \<open>Normalization\<close>

lemma visible_Tree: "visible (Tree v (JArr ts)) = Tree v (JArr ts) # concat (map visible ts)"
  by (subst visible.simps) simp

lemma visible_leaf: "visible (Tree v JUndefined) = [Tree v JUndefined]"
  by (subst visible.simps) simp

lemma nodeKey_Tree: "nodeKey (Tree v c) = get ''_key'' v"
  by (simp add: nodeKey_def)

lemma copy_count:
  "length (visible (fst (deepCopy uuid r n))) = length (rnodes r) \<and>
   snd (deepCopy uuid r n) = n + length (rnodes r)"
  "length (concat (map visible (fst (deepCopies uuid rs n)))) = length (concat (map rnodes rs)) \<and>
   snd (deepCopies uuid rs n) = n + length (concat (map rnodes rs)) \<and>
   length (fst (deepCopies uuid rs n)) = length rs"
proof (induction uuid r n and uuid rs n rule: deepCopy_deepCopies.induct)
  case (1 uuid v cs n)
  show ?case
  proof (cases cs)
    case None
    then show ?thesis by (simp add: visible_leaf)
  next
    case (Some rs)
    obtain ts n' where ts: "deepCopies uuid rs (Suc n) = (ts, n')"
      by (cases "deepCopies uuid rs (Suc n)")
    from "1.IH" [OF refl Some] ts Some show ?thesis by (simp add: visible_Tree)
  qed
next
  case (2 uuid n)
  then show ?case by simp
next
  case (3 uuid r rs n)
  obtain t n1 where t: "deepCopy uuid r n = (t, n1)" by (cases "deepCopy uuid r n")
  obtain ts n2 where ts: "deepCopies uuid rs n1 = (ts, n2)" by (cases "deepCopies uuid rs n1")
  from "3.IH"(1) "3.IH"(2) [OF t [symmetric] refl] t ts show ?case by simp
qed

lemma copy_keys:
  "(\<forall>r' \<in> set (rnodes r). map_of (rvalue r') ''_key'' = None) \<Longrightarrow>
     map nodeKey (visible (fst (deepCopy uuid r n))) =
       map (\<lambda>m. JStr (uuid m)) [n..<snd (deepCopy uuid r n)]"
  "(\<forall>r' \<in> set (concat (map rnodes rs)). map_of (rvalue r') ''_key'' = None) \<Longrightarrow>
     map nodeKey (concat (map visible (fst (deepCopies uuid rs n)))) =
       map (\<lambda>m. JStr (uuid m)) [n..<snd (deepCopies uuid rs n)]"
proof (induction uuid r n and uuid rs n rule: deepCopy_deepCopies.induct)
  case (1 uuid v cs n)
  have v: "map_of v ''_key'' = None" using "1.prems" by (cases cs) auto
  have g: "get ''_key'' (fold (\<lambda>(k, x). put k x) v [(''_key'', JStr (uuid n))]) = JStr (uuid n)"
    by (simp add: get_def map_of_spread [OF v])
  show ?case
  proof (cases cs)
    case None
    then show ?thesis by (simp add: visible_leaf nodeKey_Tree g)
  next
    case (Some rs)
    obtain ts n' where ts: "deepCopies uuid rs (Suc n) = (ts, n')"
      by (cases "deepCopies uuid rs (Suc n)")
    have le: "Suc n \<le> n'" using copy_count(2) [of uuid rs "Suc n"] ts by simp
    have "map nodeKey (concat (map visible ts)) = map (\<lambda>m. JStr (uuid m)) [Suc n..<n']"
      using "1.IH" [OF refl Some] "1.prems" Some ts by simp
    moreover have "[n..<n'] = n # [Suc n..<n']" using le by (simp add: upt_conv_Cons)
    ultimately show ?thesis using Some ts
      by (simp add: visible_Tree nodeKey_Tree g)
  qed
next
  case (2 uuid n)
  then show ?case by simp
next
  case (3 uuid r rs n)
  obtain t n1 where t: "deepCopy uuid r n = (t, n1)" by (cases "deepCopy uuid r n")
  obtain ts n2 where ts: "deepCopies uuid rs n1 = (ts, n2)" by (cases "deepCopies uuid rs n1")
  have l1: "n \<le> n1" using copy_count(1) [of uuid r n] t by simp
  have l2: "n1 \<le> n2" using copy_count(2) [of uuid rs n1] ts by simp
  have a: "map nodeKey (visible t) = map (\<lambda>m. JStr (uuid m)) [n..<n1]"
    using "3.IH"(1) "3.prems" t by simp
  have b: "map nodeKey (concat (map visible ts)) = map (\<lambda>m. JStr (uuid m)) [n1..<n2]"
    using "3.IH"(2) [OF t [symmetric] refl] "3.prems" ts by simp
  have "[n..<n2] = [n..<n1] @ [n1..<n2]" using l1 l2 by (metis le_Suc_ex upt_add_eq_append)
  with a b show ?case by (simp add: t ts)
qed

lemma deepCopies_nth:
  "j < length rs \<Longrightarrow> \<exists>m. fst (deepCopies uuid rs n) ! j = fst (deepCopy uuid (rs ! j) m)"
proof (induction rs arbitrary: j n)
  case Nil
  then show ?case by simp
next
  case (Cons r rs)
  obtain t n1 where t: "deepCopy uuid r n = (t, n1)" by (cases "deepCopy uuid r n")
  obtain ts n2 where ts: "deepCopies uuid rs n1 = (ts, n2)" by (cases "deepCopies uuid rs n1")
  show ?case
  proof (cases j)
    case 0
    with t ts show ?thesis by (auto intro: exI [of _ n])
  next
    case (Suc j')
    with Cons.prems have "j' < length rs" by simp
    from Cons.IH [OF this, of n1] ts Suc t show ?thesis by simp
  qed
qed

text \<open>
  Claim C1, as the code has it. For every raw input (nothing, a forest or a single tree)
  normalization gives a synthetic root whose children are the deep copies of the
  top-level trees in reverse input order; the tree has one node per raw node plus the
  root; the raw input stays what it was. If the key generator never repeats a value and
  no raw payload has an entry named \<^verbatim>\<open>_key\<close>, the keys of the copies are pairwise
  distinct.
\<close>

theorem normalization_copies:
  "let T = fst (updatedInternalData uuid d n)
   in val T = invisible_root \<and>
      kids T = fst (deepCopies uuid (rev (forest_of d)) n) \<and>
      length (kids T) = length (forest_of d) \<and>
      (\<forall>j < length (forest_of d).
          \<exists>m. kids T ! j = fst (deepCopy uuid (forest_of d ! (length (forest_of d) - 1 - j)) m)) \<and>
      length (visible T) = Suc (length (concat (map rnodes (forest_of d)))) \<and>
      external_data (init uuid tidy c d) = d \<and>
      (inj uuid \<and> no_field ''_key'' d \<longrightarrow> distinct (map nodeKey (tl (visible T))))"
proof -
  let ?rs = "rev (forest_of d)"
  let ?cs = "fst (deepCopies uuid ?rs n)"
  have T: "fst (updatedInternalData uuid d n) = Tree invisible_root (JArr ?cs)"
    by (simp add: updatedInternalData_eq)
  have len: "length ?cs = length (forest_of d)"
    using copy_count(2) [of uuid ?rs n] by simp
  have nth: "\<forall>j < length (forest_of d).
      \<exists>m. ?cs ! j = fst (deepCopy uuid (forest_of d ! (length (forest_of d) - 1 - j)) m)"
  proof (intro allI impI)
    fix j assume j: "j < length (forest_of d)"
    then have "j < length ?rs" by simp
    from deepCopies_nth [OF this, of uuid n] j
    show "\<exists>m. ?cs ! j = fst (deepCopy uuid (forest_of d ! (length (forest_of d) - 1 - j)) m)"
      by (simp add: rev_nth)
  qed
  have cnt: "length (concat (map visible ?cs)) = length (concat (map rnodes (forest_of d)))"
  proof -
    have "length (concat (map rnodes ?rs)) = length (concat (map rnodes (forest_of d)))"
      by (simp add: length_concat rev_map [symmetric])
    with copy_count(2) [of uuid ?rs n] show ?thesis by simp
  qed
  have keys: "distinct (map nodeKey (concat (map visible ?cs)))"
    if "inj uuid" "no_field ''_key'' d"
  proof -
    have "\<forall>r' \<in> set (concat (map rnodes ?rs)). map_of (rvalue r') ''_key'' = None"
      using that(2) by (auto simp: no_field_def)
    from copy_keys(2) [OF this]
    have "map nodeKey (concat (map visible ?cs)) =
        map (\<lambda>m. JStr (uuid m)) [n..<snd (deepCopies uuid ?rs n)]" .
    moreover have "inj_on (\<lambda>m. JStr (uuid m)) A" for A
      using that(1) by (auto simp: inj_on_def inj_def)
    ultimately show ?thesis by (simp add: distinct_map)
  qed
  show ?thesis
    unfolding Let_def T
    using len nth cnt keys
    by (simp add: visible_Tree init_def)
qed

theorem normalization_copies_witness:
  "inj sample_uuid \<and>
   no_field ''_key'' (Forest [Raw [(''label'', JStr ''a'')] (Some [Raw [] None]), Raw [(''label'', JStr ''b'')] None]) \<and>
   fst (updatedInternalData sample_uuid
     (Forest [Raw [(''label'', JStr ''a'')] (Some [Raw [] None]), Raw [(''label'', JStr ''b'')] None]) 0) =
     Tree [(''name'', JStr ''__invisible_root'')] (JArr
       [Tree [(''_key'', JStr ''k''), (''label'', JStr ''b'')] JUndefined,
        Tree [(''_key'', JStr ''kk''), (''label'', JStr ''a'')] (JArr [Tree [(''_key'', JStr ''kkk'')] JUndefined])]) \<and>
   distinct (map nodeKey (tl (visible (fst (updatedInternalData sample_uuid
     (Forest [Raw [(''label'', JStr ''a'')] (Some [Raw [] None]), Raw [(''label'', JStr ''b'')] None]) 0)))))"
proof -
  let ?d = "Forest [Raw [(''label'', JStr ''a'')] (Some [Raw [] None]), Raw [(''label'', JStr ''b'')] None]"
  have i: "inj sample_uuid"
    by (rule injI) (auto simp: sample_uuid_def dest: arg_cong [where f = length])
  have k: "no_field ''_key'' ?d" by code_simp
  have e: "fst (updatedInternalData sample_uuid ?d 0) =
     Tree [(''name'', JStr ''__invisible_root'')] (JArr
       [Tree [(''_key'', JStr ''k''), (''label'', JStr ''b'')] JUndefined,
        Tree [(''_key'', JStr ''kk''), (''label'', JStr ''a'')] (JArr [Tree [(''_key'', JStr ''kkk'')] JUndefined])])"
    by code_simp
  from normalization_copies [of sample_uuid ?d 0 sample_tidy default_config] i k
  have "distinct (map nodeKey (tl (visible (fst (updatedInternalData sample_uuid ?d 0)))))"
    by (simp add: Let_def)
  with i k e show ?thesis by blast
qed

text \<open>
  Claim C1 as stated fails for payloads that carry their own \<^verbatim>\<open>_key\<close>: the spread
  writes the caller's entry over the fresh key, so two raw nodes with the same
  \<^verbatim>\<open>_key\<close> give two copies with the same key.
\<close>

theorem payload_key_repeats:
  "nodeKey (kids (fst (updatedInternalData sample_uuid
      (Forest [Raw [(''_key'', JStr ''a'')] None, Raw [(''_key'', JStr ''a'')] None]) 0)) ! 0) = JStr ''a'' \<and>
   nodeKey (kids (fst (updatedInternalData sample_uuid
      (Forest [Raw [(''_key'', JStr ''a'')] None, Raw [(''_key'', JStr ''a'')] None]) 0)) ! 1) = JStr ''a''"
  by code_simp

section \<open>Trees with the same skeleton have the same layout\<close>

lemma skeleton_eq:
  "skeleton t = skeleton t' \<longleftrightarrow>
     (get ''name'' (val t) = JStr ''__invisible_root'') = (get ''name'' (val t') = JStr ''__invisible_root'') \<and>
     map skeleton (kids t) = map skeleton (kids t')"
  by (subst (1 2) skeleton.simps) simp

lemma skeleton_kids:
  assumes "skeleton t = skeleton t'"
  shows "length (kids t) = length (kids t')"
    and "j < length (kids t) \<Longrightarrow> skeleton (kids t ! j) = skeleton (kids t' ! j)"
proof -
  from assms have m: "map skeleton (kids t) = map skeleton (kids t')" by (simp add: skeleton_eq)
  then show "length (kids t) = length (kids t')" by (rule map_eq_imp_length_eq)
  show "skeleton (kids t ! j) = skeleton (kids t' ! j)" if "j < length (kids t)"
    using that m by (metis length_map nth_map)
qed

lemma skeleton_shape: "skeleton t = skeleton t' \<Longrightarrow> shapeOf t = shapeOf t'"
proof (induction t arbitrary: t' rule: shapeOf.induct)
  case (1 t)
  note sk = skeleton_kids [OF "1.prems"]
  have "map shapeOf (kids t) = map shapeOf (kids t')"
  proof (rule nth_equalityI)
    show "length (map shapeOf (kids t)) = length (map shapeOf (kids t'))" using sk(1) by simp
    fix j assume "j < length (map shapeOf (kids t))"
    then have j: "j < length (kids t)" by simp
    then have "shapeOf (kids t ! j) = shapeOf (kids t' ! j)"
      using "1.IH" [of "kids t ! j" "kids t' ! j"] sk(2) by simp
    with j sk(1) show "map shapeOf (kids t) ! j = map shapeOf (kids t') ! j" by simp
  qed
  then show ?case by (subst (1 2) shapeOf.simps) simp
qed

lemma alike_expand: "alike a b \<Longrightarrow> list_all2 alike (expand a) (expand b)"
proof -
  assume ab: "alike a b"
  obtain p t where a: "a = (p, t)" by (cases a)
  obtain p' t' where b: "b = (p', t')" by (cases b)
  from ab a b have pp: "p' = p" and sk: "skeleton t = skeleton t'" by (simp_all add: alike_def)
  note k = skeleton_kids [OF sk]
  show ?thesis
    unfolding a b pp
    by (rule list_all2_all_nthI) (use k in \<open>simp_all add: length_expand nth_expand alike_def\<close>)
qed

lemma alike_next:
  "list_all2 alike lvl lvl' \<Longrightarrow> list_all2 alike (concat (map expand lvl)) (concat (map expand lvl'))"
  by (induction rule: list_all2_induct) (simp_all add: alike_expand list_all2_appendI)

lemma alike_bfs: "list_all2 alike lvl lvl' \<Longrightarrow> list_all2 alike (bfs lvl) (bfs lvl')"
proof (induction lvl arbitrary: lvl' rule: bfs.induct)
  case (1 lvl)
  show ?case
  proof (cases "lvl = []")
    case True
    with "1.prems" show ?thesis by (simp add: bfs_Nil)
  next
    case False
    with "1.prems" have ne': "lvl' \<noteq> []" by auto
    have "list_all2 alike (bfs (concat (map expand lvl))) (bfs (concat (map expand lvl')))"
      using False alike_next [OF "1.prems"] by (rule "1.IH")
    with "1.prems" show ?thesis
      by (subst bfs_step [OF False], subst bfs_step [OF ne']) (rule list_all2_appendI)
  qed
qed

lemma skeleton_sub:
  "skeleton T = skeleton T' \<Longrightarrow>
     rel_option (\<lambda>t t'. skeleton t = skeleton t') (sub T q) (sub T' q)"
proof (induction q arbitrary: T T')
  case Nil
  then show ?case by simp
next
  case (Cons i q)
  note k = skeleton_kids [OF Cons.prems]
  show ?case
  proof (cases "i < length (kids T)")
    case True
    with k Cons.IH [of "kids T ! i" "kids T' ! i"] show ?thesis by simp
  next
    case False
    with k show ?thesis by simp
  qed
qed

lemma skeleton_name:
  "skeleton t = skeleton t' \<Longrightarrow>
     (get ''name'' (val t) \<noteq> JStr ''__invisible_root'') = (get ''name'' (val t') \<noteq> JStr ''__invisible_root'')"
  by (simp add: skeleton_eq)

lemma place_positioned:
  "place (positioned tidy c T (p, t)) =
     (p, length p, tidy (shapeOf T) p * of_int (nodeWidth c), of_nat (length p) * of_int (levelHeight c))"
  by (simp add: place_def positioned_def)

lemma alike_nodes:
  assumes "list_all2 alike xs ys" and "shapeOf T = shapeOf T'"
  shows "map place (map (positioned tidy c T) xs) = map place (map (positioned tidy c T') ys)"
  using assms(1)
proof (induction rule: list_all2_induct)
  case Nil
  then show ?case by simp
next
  case (Cons a xs b ys)
  obtain p t where a: "a = (p, t)" by (cases a)
  obtain p' t' where b: "b = (p', t')" by (cases b)
  from Cons.hyps(1) a b have "p' = p" by (simp add: alike_def)
  with Cons.IH assms(2) show ?case by (simp add: a b place_positioned)
qed

lemma alike_linkTo:
  assumes ab: "alike a b" and sk: "skeleton T = skeleton T'"
  shows "list_all2 (\<lambda>l l'. span l = span l' \<and> kept l = kept l')
           (linkTo tidy c T a) (linkTo tidy c T' b)"
proof -
  obtain p t where a: "a = (p, t)" by (cases a)
  obtain p' t' where b: "b = (p', t')" by (cases b)
  from ab a b have pp: "p' = p" by (simp add: alike_def)
  have sh: "shapeOf T = shapeOf T'" using sk by (rule skeleton_shape)
  from skeleton_sub [OF sk, of "butlast p"] show ?thesis
  proof (cases rule: option.rel_cases)
    case None
    then show ?thesis by (simp add: a b pp linkTo_def)
  next
    case (Some x y)
    then show ?thesis
      using sh skeleton_name [of x y]
      by (simp add: a b pp linkTo_def span_def kept_def place_positioned)
  qed
qed

lemma alike_links:
  assumes "list_all2 alike xs ys" and sk: "skeleton T = skeleton T'"
  shows "list_all2 (\<lambda>l l'. span l = span l' \<and> kept l = kept l')
           (concat (map (linkTo tidy c T) xs)) (concat (map (linkTo tidy c T') ys))"
  using assms(1)
  by (induction rule: list_all2_induct) (simp_all add: alike_linkTo [OF _ sk] list_all2_appendI)

lemma filter_span:
  "list_all2 (\<lambda>l l'. span l = span l' \<and> kept l = kept l') xs ys \<Longrightarrow>
     map span (filter kept xs) = map span (filter kept ys)"
  by (induction rule: list_all2_induct) auto

lemma list_all2_tl: "list_all2 P xs ys \<Longrightarrow> list_all2 P (tl xs) (tl ys)"
  by (cases xs; cases ys) simp_all

lemma same_skeleton_same_layout:
  assumes sk: "skeleton (internal s) = skeleton (internal s')" and c: "cfg s = cfg s'"
  shows "map place (nodeDataList (draw tidy s)) = map place (nodeDataList (draw tidy s'))"
    and "map span (linkDataList (draw tidy s)) = map span (linkDataList (draw tidy s'))"
proof -
  have "list_all2 alike [([], internal s)] [([], internal s')]"
    using sk by (simp add: alike_def)
  then have "list_all2 alike (bfs [([], internal s)]) (bfs [([], internal s')])"
    by (rule alike_bfs)
  then have tl: "list_all2 alike (tl (bfs [([], internal s)])) (tl (bfs [([], internal s')]))"
    by (rule list_all2_tl)
  show "map place (nodeDataList (draw tidy s)) = map place (nodeDataList (draw tidy s'))"
    unfolding draw_nodes c using alike_nodes [OF tl skeleton_shape [OF sk]] .
  have "linkDataList (draw tidy s) = filter kept (concat (map (linkTo tidy (cfg s') (internal s)) (tl (bfs [([], internal s)]))))"
    by (simp add: draw_links kept_def [abs_def] c)
  moreover have "linkDataList (draw tidy s') = filter kept (concat (map (linkTo tidy (cfg s') (internal s')) (tl (bfs [([], internal s')]))))"
    by (simp add: draw_links kept_def [abs_def])
  ultimately show "map span (linkDataList (draw tidy s)) = map span (linkDataList (draw tidy s'))"
    using filter_span [OF alike_links [OF tl sk]] by simp
qed

lemma skeleton_modifyAt:
  "sub T p = Some X \<Longrightarrow> skeleton (f X) = skeleton X \<Longrightarrow> skeleton (modifyAt p f T) = skeleton T"
proof (induction T p rule: sub.induct)
  case (1 t)
  then show ?case by simp
next
  case (2 t i p)
  from "2.prems"(1) have i: "i < length (kids t)" by (simp split: if_splits)
  with "2.prems" have sb: "sub (kids t ! i) p = Some X" by simp
  have IH: "skeleton (modifyAt p f (kids t ! i)) = skeleton (kids t ! i)"
    using "2.IH" [OF i sb "2.prems"(2)] .
  have "map skeleton ((kids t)[i := modifyAt p f (kids t ! i)]) = map skeleton (kids t)"
    using i IH by (simp add: map_update list_update_same_conv)
  then show ?case using i
    by (simp add: skeleton_eq kids_def)
qed

lemma toggle_leaf:
  assumes "\<not> truthy (children X)" and "\<not> truthy (get ''_children'' (val X))"
  shows "toggle X = Tree (put ''_collapsed'' (JBool False) (put ''_children'' JNull (val X)))
                         (get ''_children'' (val X))"
    and "skeleton (toggle X) = skeleton X"
    and "kids (toggle X) = []" and "hidden (toggle X) = []"
proof -
  obtain v c where X: "X = Tree v c" by (cases X)
  show t: "toggle X = Tree (put ''_collapsed'' (JBool False) (put ''_children'' JNull (val X)))
                         (get ''_children'' (val X))"
    using assms(1) by (simp add: X)
  have a: "arr c = []" using assms(1) by (cases c) (simp_all add: X)
  have b: "arr (get ''_children'' v) = []"
    using assms(2) by (cases "get ''_children'' v") (simp_all add: X)
  show "skeleton (toggle X) = skeleton X"
    unfolding t by (simp add: skeleton_eq X kids_def a b get_put_other)
  show "kids (toggle X) = []" unfolding t by (simp add: X kids_def b)
  show "hidden (toggle X) = []" unfolding t
    by (simp add: X hidden_def get_put_same get_put_other)
qed

lemma modifyAt_cong_at:
  "sub T p = Some X \<Longrightarrow> f X = g X \<Longrightarrow> modifyAt p f T = modifyAt p g T"
  by (induction T p rule: sub.induct) (auto split: if_splits)

section \<open>A click on a node without children and hidden children\<close>

text \<open>
  In the tree model: after a layout pass, a click on such a node changes the object at the
  node's position only, and the skeleton of the tree, hence the layout, stays.
\<close>

lemma leaf_click:
  assumes en: "collapseEnabled (cfg s)"
    and i: "i < length (nodeDataList (draw tidy s))"
    and c: "\<not> truthy (children (pdata (nodeDataList (draw tidy s) ! i)))"
    and h: "\<not> truthy (get ''_children'' (val (pdata (nodeDataList (draw tidy s) ! i))))"
  shows "let s0 = draw tidy s;
             s1 = fst (onClickNode tidy s0 i);
             p = ppath (nodeDataList s0 ! i);
             X = pdata (nodeDataList s0 ! i);
             X' = Tree (put ''_collapsed'' (JBool False) (put ''_children'' JNull (val X)))
                       (get ''_children'' (val X))
         in snd (onClickNode tidy s0 i) = None \<and>
            internal s1 = modifyAt p (\<lambda>x. X') (internal s0) \<and>
            sub (internal s0) p = Some X \<and> sub (internal s1) p = Some X' \<and>
            kids X' = [] \<and> hidden X' = [] \<and>
            cfg s1 = cfg s0 \<and> external_data s1 = external_data s0 \<and>
            length (nodeDataList s1) = length (nodeDataList s0) \<and>
            pdata (nodeDataList s1 ! i) = X' \<and>
            map place (nodeDataList s1) = map place (nodeDataList s0) \<and>
            map span (linkDataList s1) = map span (linkDataList s0)"
proof -
  from click_node [OF en i] obtain p X where
    p: "ppath (nodeDataList (draw tidy s) ! i) = p"
    and X: "pdata (nodeDataList (draw tidy s) ! i) = X"
    and sb: "sub (internal s) p = Some X"
    and c1: "onClickNode tidy (draw tidy s) i = (draw tidy (s\<lparr>internal := modifyAt p toggle (internal s)\<rparr>), None)"
    and sb1: "sub (modifyAt p toggle (internal s)) p = Some (toggle X)"
    and X1: "pdata (nodeDataList (draw tidy (s\<lparr>internal := modifyAt p toggle (internal s)\<rparr>)) ! i) = toggle X"
    by metis
  define X' where "X' = Tree (put ''_collapsed'' (JBool False) (put ''_children'' JNull (val X)))
                       (get ''_children'' (val X))"
  define s' where "s' = s\<lparr>internal := modifyAt p toggle (internal s)\<rparr>"
  from c h X have cX: "\<not> truthy (children X)" and hX: "\<not> truthy (get ''_children'' (val X))"
    by simp_all
  note tl = toggle_leaf [OF cX hX]
  have tX: "toggle X = X'" using tl(1) by (simp add: X'_def)
  have md: "modifyAt p toggle (internal s) = modifyAt p (\<lambda>x. X') (internal s)"
    using sb tX by (rule modifyAt_cong_at)
  have sk: "skeleton (internal s') = skeleton (internal s)"
    using skeleton_modifyAt [where f = toggle, OF sb tl(2)] by (simp add: s'_def)
  have cf: "cfg s' = cfg s" by (simp add: s'_def)
  note lay = same_skeleton_same_layout [OF sk cf, of tidy]
  have len: "length (nodeDataList (draw tidy s')) = length (nodeDataList (draw tidy s))"
    using arg_cong [OF lay(1), of length] by simp
  have "snd (onClickNode tidy (draw tidy s) i) = None \<and>
        internal (draw tidy s') = modifyAt p (\<lambda>x. X') (internal (draw tidy s)) \<and>
        sub (internal (draw tidy s)) p = Some X \<and> sub (internal (draw tidy s')) p = Some X' \<and>
        kids X' = [] \<and> hidden X' = [] \<and>
        cfg (draw tidy s') = cfg (draw tidy s) \<and>
        external_data (draw tidy s') = external_data (draw tidy s) \<and>
        length (nodeDataList (draw tidy s')) = length (nodeDataList (draw tidy s)) \<and>
        pdata (nodeDataList (draw tidy s') ! i) = X' \<and>
        map place (nodeDataList (draw tidy s')) = map place (nodeDataList (draw tidy s)) \<and>
        map span (linkDataList (draw tidy s')) = map span (linkDataList (draw tidy s))"
  proof (intro conjI)
    show "snd (onClickNode tidy (draw tidy s) i) = None" by (simp add: c1)
    show "internal (draw tidy s') = modifyAt p (\<lambda>x. X') (internal (draw tidy s))"
      using md by (simp add: s'_def)
    show "sub (internal (draw tidy s)) p = Some X" using sb by simp
    show "sub (internal (draw tidy s')) p = Some X'" using sb1 tX by (simp add: s'_def)
    show "kids X' = []" using tl(3) tX by simp
    show "hidden X' = []" using tl(4) tX by simp
    show "cfg (draw tidy s') = cfg (draw tidy s)" by (simp add: s'_def)
    show "external_data (draw tidy s') = external_data (draw tidy s)" by (simp add: s'_def)
    show "length (nodeDataList (draw tidy s')) = length (nodeDataList (draw tidy s))" by (rule len)
    show "pdata (nodeDataList (draw tidy s') ! i) = X'" using X1 tX by (simp add: s'_def)
    show "map place (nodeDataList (draw tidy s')) = map place (nodeDataList (draw tidy s))"
      by (rule lay(1))
    show "map span (linkDataList (draw tidy s')) = map span (linkDataList (draw tidy s))"
      by (rule lay(2))
  qed
  then show ?thesis
    unfolding Let_def c1 fst_conv p X s'_def [symmetric] X'_def [symmetric] .
qed

section \<open>Clicking a leaf\<close>

text \<open>
  Claim C6, as the code has it. Take data in which no payload has an entry
  \<^verbatim>\<open>_children\<close>, the state after mounting and any clicks, and a rendered node with no
  children and no hidden children. A click at its index raises nothing and is not a no-op
  on the node: the payload gets \<^verbatim>\<open>_children = null\<close> and \<^verbatim>\<open>_collapsed = false\<close>, and
  \<^verbatim>\<open>children\<close> becomes what the payload had under \<^verbatim>\<open>_children\<close>. The tree changes at the
  node's position and nowhere else, the node still has neither children nor hidden
  children, the configuration stays, and the new layout pass emits the same number of
  nodes, at the same positions, depths and coordinates, and links between the same
  positions.
\<close>

theorem leaf_click_keeps_layout:
  assumes nf: "no_field ''_children'' d"
    and en: "collapseEnabled c"
    and i: "i < length (nodeDataList (clicks tidy (init uuid tidy c d) is))"
    and ch: "\<not> truthy (children (pdata (nodeDataList (clicks tidy (init uuid tidy c d) is) ! i)))"
    and h: "\<not> truthy (get ''_children''
               (val (pdata (nodeDataList (clicks tidy (init uuid tidy c d) is) ! i))))"
  shows "let s0 = clicks tidy (init uuid tidy c d) is;
             s1 = fst (onClickNode tidy s0 i);
             p = ppath (nodeDataList s0 ! i);
             X = pdata (nodeDataList s0 ! i);
             X' = Tree (put ''_collapsed'' (JBool False) (put ''_children'' JNull (val X)))
                       (get ''_children'' (val X))
         in snd (onClickNode tidy s0 i) = None \<and>
            internal s1 = modifyAt p (\<lambda>x. X') (internal s0) \<and>
            sub (internal s0) p = Some X \<and> sub (internal s1) p = Some X' \<and>
            kids X' = [] \<and> hidden X' = [] \<and>
            cfg s1 = cfg s0 \<and>
            length (nodeDataList s1) = length (nodeDataList s0) \<and>
            pdata (nodeDataList s1 ! i) = X' \<and>
            map place (nodeDataList s1) = map place (nodeDataList s0) \<and>
            map span (linkDataList s1) = map span (linkDataList s0)"
proof -
  let ?s = "clicks tidy (init uuid tidy c d) is"
  have en': "collapseEnabled (cfg ?s)" using en by (simp add: cfg_clicks cfg_init)
  have i': "i < length (nodeDataList (draw tidy ?s))" using i by (simp add: reachable_drawn)
  have ch': "\<not> truthy (children (pdata (nodeDataList (draw tidy ?s) ! i)))"
    using ch by (simp add: reachable_drawn)
  have h': "\<not> truthy (get ''_children'' (val (pdata (nodeDataList (draw tidy ?s) ! i))))"
    using h by (simp add: reachable_drawn)
  note th = leaf_click [OF en' i' ch' h', unfolded Let_def reachable_drawn]
  show ?thesis
    unfolding Let_def using th by blast
qed

theorem leaf_click_keeps_layout_witness:
  "no_field ''_children'' dataset \<and>
   pdata (nodeDataList (clicks sample_tidy (init sample_uuid sample_tidy default_config dataset) [1, 1]) ! 2) =
     Tree [(''_key'', JStr ''kkkkk''), (''label'', JStr ''5'')] JUndefined \<and>
   snd (onClickNode sample_tidy
      (clicks sample_tidy (init sample_uuid sample_tidy default_config dataset) [1, 1]) 2) = None \<and>
   sub (internal (fst (onClickNode sample_tidy
          (clicks sample_tidy (init sample_uuid sample_tidy default_config dataset) [1, 1]) 2)))
       (ppath (nodeDataList
          (clicks sample_tidy (init sample_uuid sample_tidy default_config dataset) [1, 1]) ! 2)) =
     Some (Tree [(''_key'', JStr ''kkkkk''), (''label'', JStr ''5''), (''_children'', JNull),
                 (''_collapsed'', JBool False)] JUndefined) \<and>
   map place (nodeDataList (fst (onClickNode sample_tidy
      (clicks sample_tidy (init sample_uuid sample_tidy default_config dataset) [1, 1]) 2))) =
     map place (nodeDataList
      (clicks sample_tidy (init sample_uuid sample_tidy default_config dataset) [1, 1])) \<and>
   map span (linkDataList (fst (onClickNode sample_tidy
      (clicks sample_tidy (init sample_uuid sample_tidy default_config dataset) [1, 1]) 2))) =
     map span (linkDataList
      (clicks sample_tidy (init sample_uuid sample_tidy default_config dataset) [1, 1]))"
proof -
  let ?s = "clicks sample_tidy (init sample_uuid sample_tidy default_config dataset) [1, 1]"
  have nf: "no_field ''_children'' dataset" by code_simp
  have en: "collapseEnabled default_config" by code_simp
  have i: "2 < length (nodeDataList ?s)" by code_simp
  have X: "pdata (nodeDataList ?s ! 2) =
      Tree [(''_key'', JStr ''kkkkk''), (''label'', JStr ''5'')] JUndefined" by code_simp
  have c: "\<not> truthy (children (pdata (nodeDataList ?s ! 2)))"
    unfolding X by simp
  have h: "\<not> truthy (get ''_children'' (val (pdata (nodeDataList ?s ! 2))))"
    unfolding X by (simp add: get_def)
  have ev: "Tree (put ''_collapsed'' (JBool False) (put ''_children'' JNull
                (val (Tree [(''_key'', JStr ''kkkkk''), (''label'', JStr ''5'')] JUndefined))))
              (get ''_children'' (val (Tree [(''_key'', JStr ''kkkkk''), (''label'', JStr ''5'')] JUndefined))) =
            Tree [(''_key'', JStr ''kkkkk''), (''label'', JStr ''5''), (''_children'', JNull),
                    (''_collapsed'', JBool False)] JUndefined"
    by (simp add: get_def)
  note th = leaf_click_keeps_layout [OF nf en i c h, unfolded Let_def X]
  show ?thesis
    unfolding ev [symmetric] using th X nf by blast
qed

text \<open>
  Claim C6 as stated fails: a click on the leaf labelled 5 of the component's data set
  changes the node, and with it the normalized tree: the payload has two entries more.
\<close>

theorem leaf_click_changes_payload:
  "sub (internal (init sample_uuid sample_tidy default_config dataset)) [0, 1] =
     Some (Tree [(''_key'', JStr ''kkkkk''), (''label'', JStr ''5'')] JUndefined) \<and>
   ppath (nodeDataList (init sample_uuid sample_tidy default_config dataset) ! 2) = [0, 1] \<and>
   sub (internal (fst (onClickNode sample_tidy (init sample_uuid sample_tidy default_config dataset) 2)))
       [0, 1] =
     Some (Tree [(''_key'', JStr ''kkkkk''), (''label'', JStr ''5''), (''_children'', JNull),
                 (''_collapsed'', JBool False)] JUndefined) \<and>
   internal (fst (onClickNode sample_tidy (init sample_uuid sample_tidy default_config dataset) 2)) \<noteq>
     internal (init sample_uuid sample_tidy default_config dataset)"
  by code_simp

section \<open>Dragging\<close>







section \<open>The keyed join\<close>

lemma firstByKey_distinct:
  "distinct ks \<Longrightarrow> set ks \<inter> fst ` set m = {} \<Longrightarrow>
     firstByKey m ks i = m @ zip ks [i..<i + length ks]"
proof (induction ks arbitrary: m i)
  case Nil
  then show ?case by simp
next
  case (Cons k ks)
  from Cons.prems have none: "map_of m k = None"
    by (auto simp: map_of_eq_None_iff)
  have "set ks \<inter> fst ` set (m @ [(k, i)]) = {}" using Cons.prems by auto
  moreover have "distinct ks" using Cons.prems by simp
  ultimately have "firstByKey (m @ [(k, i)]) ks (Suc i) = (m @ [(k, i)]) @ zip ks [Suc i..<Suc i + length ks]"
    by (rule Cons.IH [rotated])
  moreover have "[i..<i + length (k # ks)] = i # [Suc i..<Suc i + length ks]"
    using upt_conv_Cons [of i "i + length (k # ks)"] by simp
  ultimately show ?case using none by simp
qed

lemma index_lookup:
  assumes "distinct ks"
  shows "map_of (zip ks [0..<length ks]) k = Some i \<longleftrightarrow> i < length ks \<and> ks ! i = k"
proof
  assume "map_of (zip ks [0..<length ks]) k = Some i"
  then have "(k, i) \<in> set (zip ks [0..<length ks])" by (rule map_of_SomeD)
  then show "i < length ks \<and> ks ! i = k" by (auto simp: in_set_zip)
next
  assume "i < length ks \<and> ks ! i = k"
  then show "map_of (zip ks [0..<length ks]) k = Some i"
    using map_of_zip_nth [of ks "[0..<length ks]" i] assms by auto
qed

lemma index_lookup_None: "map_of (zip ks [0..<length ks]) k = None \<longleftrightarrow> k \<notin> set ks"
proof -
  have "fst ` set (zip ks [0..<length ks]) = set ks"
    by (metis length_upt diff_zero list.set_map map_fst_zip)
  then show ?thesis by (simp add: map_of_eq_None_iff)
qed

lemma map_of_remove:
  "map_of (filter (\<lambda>(k', i'). k' \<noteq> k) m) k'' = (if k'' = k then None else map_of m k'')"
  by (induction m) auto

lemma bindData_distinct:
  "distinct (map key B) \<Longrightarrow>
     bindData m (map (\<lambda>d. (key d, d)) B) =
       (filter (\<lambda>d. map_of m (key d) = None) B,
        map (\<lambda>d. (the (map_of m (key d)), d)) (filter (\<lambda>d. map_of m (key d) \<noteq> None) B),
        filter (\<lambda>(k, i). k \<notin> key ` set B) m)"
proof (induction B arbitrary: m)
  case Nil
  then show ?case by simp
next
  case (Cons d B)
  from Cons.prems have dB: "distinct (map key B)" and nd: "key d \<notin> key ` set B" by auto
  show ?case
  proof (cases "map_of m (key d)")
    case None
    then have "key d \<notin> fst ` set m" by (simp add: map_of_eq_None_iff)
    then have "filter (\<lambda>(k, i). k \<notin> key ` set (d # B)) m = filter (\<lambda>(k, i). k \<notin> key ` set B) m"
      by (intro filter_cong) force+
    with Cons.IH [OF dB, of m] None show ?thesis by simp
  next
    case (Some i)
    let ?m1 = "filter (\<lambda>(k', i'). k' \<noteq> key d) m"
    have same: "map_of ?m1 (key x) = map_of m (key x)" if "x \<in> set B" for x
    proof -
      from that have "key x \<in> key ` set B" by (rule imageI)
      with nd have "key x \<noteq> key d" by metis
      then show ?thesis by (simp add: map_of_remove)
    qed
    have a: "filter (\<lambda>x. map_of ?m1 (key x) = None) B = filter (\<lambda>x. map_of m (key x) = None) B"
      by (intro filter_cong) (simp_all add: same)
    have b: "filter (\<lambda>x. map_of ?m1 (key x) \<noteq> None) B = filter (\<lambda>x. map_of m (key x) \<noteq> None) B"
      by (intro filter_cong) (simp_all add: same)
    have c: "map (\<lambda>x. (the (map_of ?m1 (key x)), x)) (filter (\<lambda>x. map_of m (key x) \<noteq> None) B) =
             map (\<lambda>x. (the (map_of m (key x)), x)) (filter (\<lambda>x. map_of m (key x) \<noteq> None) B)"
      by (intro map_cong) (simp_all add: same)
    have e: "filter (\<lambda>(k, i). k \<notin> key ` set B) ?m1 = filter (\<lambda>(k, i). k \<notin> key ` set (d # B)) m"
      by (induction m) auto
    have IH: "bindData ?m1 (map (\<lambda>d. (key d, d)) B) =
       (filter (\<lambda>x. map_of m (key x) = None) B,
        map (\<lambda>x. (the (map_of m (key x)), x)) (filter (\<lambda>x. map_of m (key x) \<noteq> None) B),
        filter (\<lambda>(k, i). k \<notin> key ` set (d # B)) m)"
      using Cons.IH [OF dB, of ?m1] unfolding a b c e .
    show ?thesis using Some by (simp add: IH)
  qed
qed

lemma filter_by_index:
  "map (\<lambda>i. xs ! i) (filter (\<lambda>i. P (xs ! i)) [0..<length xs]) = filter P xs"
proof -
  have "filter P (map (\<lambda>i. xs ! i) [0..<length xs]) =
        map (\<lambda>i. xs ! i) (filter (P \<circ> (\<lambda>i. xs ! i)) [0..<length xs])"
    by (rule filter_map)
  then show ?thesis by (simp add: map_nth comp_def)
qed

lemma bindKey_distinct:
  assumes dA: "distinct (map key A)" and dB: "distinct (map key B)"
  shows "enter_sel (bindKey key A B) = filter (\<lambda>d. key d \<notin> key ` set A) B"
    and "map snd (update_sel (bindKey key A B)) = filter (\<lambda>d. key d \<in> key ` set A) B"
    and "\<forall>(a, d) \<in> set (update_sel (bindKey key A B)). a \<in> set A \<and> key a = key d"
    and "exit_sel (bindKey key A B) = filter (\<lambda>a. key a \<notin> key ` set B) A"
proof -
  let ?ks = "map key A"
  let ?m = "zip ?ks [0..<length A]"
  have m: "firstByKey [] ?ks 0 = ?m"
    using firstByKey_distinct [OF dA, of "[]" 0] by simp
  have none: "map_of ?m k = None \<longleftrightarrow> k \<notin> key ` set A" for k
    using index_lookup_None [of ?ks k] by simp
  have some: "map_of ?m k = Some i \<longleftrightarrow> i < length A \<and> key (A ! i) = k" for k i
    using index_lookup [OF dA, of k i] by auto
  note bd = bindData_distinct [OF dB, of ?m]
  have sel: "bindKey key A B =
     \<lparr>enter_sel = filter (\<lambda>d. map_of ?m (key d) = None) B,
      update_sel = map (\<lambda>(i, d). (A ! i, d))
         (map (\<lambda>d. (the (map_of ?m (key d)), d)) (filter (\<lambda>d. map_of ?m (key d) \<noteq> None) B)),
      exit_sel = map (\<lambda>i. A ! i)
         (filter (\<lambda>i. map_of ?m (?ks ! i) \<noteq> Some i \<or>
                      map_of (filter (\<lambda>(k, i). k \<notin> key ` set B) ?m) (?ks ! i) = Some i)
            [0..<length A])\<rparr>"
    by (simp add: bindKey_def Let_def m bd)
  show "enter_sel (bindKey key A B) = filter (\<lambda>d. key d \<notin> key ` set A) B"
    by (simp add: sel none)
  show "map snd (update_sel (bindKey key A B)) = filter (\<lambda>d. key d \<in> key ` set A) B"
    by (simp add: sel none comp_def split_def)
  show "\<forall>(a, d) \<in> set (update_sel (bindKey key A B)). a \<in> set A \<and> key a = key d"
  proof -
    have "A ! the (map_of ?m (key d)) \<in> set A \<and> key (A ! the (map_of ?m (key d))) = key d"
      if "map_of ?m (key d) \<noteq> None" for d
    proof -
      from that obtain i where i: "map_of ?m (key d) = Some i"
        unfolding not_None_eq by blast
      with some [of "key d" i] show ?thesis by simp
    qed
    then show ?thesis by (auto simp: sel)
  qed
  show "exit_sel (bindKey key A B) = filter (\<lambda>a. key a \<notin> key ` set B) A"
  proof -
    have "filter (\<lambda>i. map_of ?m (?ks ! i) \<noteq> Some i \<or>
                      map_of (filter (\<lambda>(k, i). k \<notin> key ` set B) ?m) (?ks ! i) = Some i)
            [0..<length A] = filter (\<lambda>i. key (A ! i) \<notin> key ` set B) [0..<length A]"
    proof (intro filter_cong refl)
      fix i assume "i \<in> set [0..<length A]"
      then have i: "i < length A" by simp
      then have s: "map_of ?m (key (A ! i)) = Some i" using some [of "key (A ! i)" i] by simp
      have "map_of (filter (\<lambda>(k, i). k \<notin> key ` set B) ?m) (key (A ! i)) =
            (if key (A ! i) \<notin> key ` set B then Some i else None)"
        using s by (simp add: map_of_filter_in map_of_eq_None_iff) (auto simp: map_of_eq_None_iff)
      with i s show "(map_of ?m (?ks ! i) \<noteq> Some i \<or>
                      map_of (filter (\<lambda>(k, i). k \<notin> key ` set B) ?m) (?ks ! i) = Some i) =
                     (key (A ! i) \<notin> key ` set B)"
        by simp
    qed
    then show ?thesis
      using filter_by_index [of A "\<lambda>a. key a \<notin> key ` set B"] by (simp add: sel)
  qed
qed

lemma linkKey_keyPair:
  "linkKey d = toStr (fst (keyPair d)) @ ''-'' @ toStr (snd (keyPair d))"
  by (simp add: linkKey_def keyPair_def nodeKey_def)

lemma keyPair_linkKey: "keyPair l = keyPair l' \<Longrightarrow> linkKey l = linkKey l'"
  by (simp add: linkKey_keyPair)

section \<open>The paths of the svg\<close>

text \<open>
  Facts on the elements that a pass creates and where it puts them, then on a pass that
  starts with the paths at rest, and on how the paths come to rest.
\<close>

lemma candidates_datum: "map datum (candidates n ls) = ls"
proof -
  have "map datum (candidates n ls) = map snd (enumerate 0 ls)"
    by (simp add: candidates_def split_def comp_def)
  then show ?thesis by (simp add: enumerate_eq_zip)
qed

lemma candidates_pid: "map pid (candidates n ls) = map (\<lambda>i. n + i) [0..<length ls]"
proof -
  have a: "map pid (candidates n ls) = map (\<lambda>x. n + fst x) (enumerate 0 ls)"
    by (simp add: candidates_def split_def comp_def)
  have b: "map (\<lambda>x. n + fst x) (enumerate 0 ls) = map (\<lambda>i. n + i) (map fst (enumerate 0 ls))"
    by (simp only: map_map comp_def)
  have c: "map fst (enumerate 0 ls) = [0..<length ls]"
    by (simp add: enumerate_eq_zip)
  show ?thesis unfolding a b c ..
qed

lemma candidates_flags:
  "c \<in> set (candidates n ls) \<Longrightarrow> \<not> classed c \<and> \<not> leaving c \<and> n \<le> pid c \<and> pid c < n + length ls"
  by (auto simp: candidates_def enumerate_eq_zip in_set_zip)

lemma candidates_distinct: "distinct (map pid (candidates n ls))"
  by (simp add: candidates_pid distinct_map inj_on_def)

lemma mset_insertBefore: "mset (insertBefore i new ps) = mset new + mset ps"
  by (induction ps) simp_all

lemma filter_insertBefore:
  "filter P new = [] \<Longrightarrow> filter P (insertBefore i new ps) = filter P ps"
  by (induction ps) simp_all

lemma mset_appendEnter:
  "mset (appendEnter up elems pending cs) =
     mset elems + mset pending + mset (filter (\<lambda>c. find (\<lambda>(a, d). pid d = pid c) up = None) cs)"
  by (induction cs arbitrary: elems pending)
     (auto simp: mset_insertBefore split: option.splits)

lemma filter_appendEnter:
  "\<forall>c \<in> set pending \<union> set cs. \<not> P c \<Longrightarrow> filter P (appendEnter up elems pending cs) = filter P elems"
proof (induction cs arbitrary: elems pending)
  case Nil
  then show ?case by (simp add: filter_empty_conv)
next
  case (Cons c cs)
  have e: "filter P pending = []" using Cons.prems by (simp add: filter_empty_conv)
  show ?case
  proof (cases "find (\<lambda>(a, d). pid d = pid c) up")
    case None
    have "\<forall>c \<in> set (pending @ [c]) \<union> set cs. \<not> P c" using Cons.prems by auto
    from Cons.IH [OF this] None show ?thesis by simp
  next
    case (Some ad)
    obtain a d where ad: "ad = (a, d)" by (cases ad)
    have "\<forall>c \<in> set [] \<union> set cs. \<not> P c" using Cons.prems by auto
    from Cons.IH [OF this, of "insertBefore (pid a) pending elems"] Some ad e
    show ?thesis by (simp add: filter_insertBefore)
  qed
qed

lemma find_None_iff': "find P xs = None \<longleftrightarrow> (\<forall>x \<in> set xs. \<not> P x)"
  by (induction xs) auto

lemma at_rest_D:
  assumes "at_rest v"
  shows "p \<in> set (paths v) \<Longrightarrow> classed p \<and> \<not> leaving p \<and> pid p < created v"
    and "distinct (map pid (paths v))"
    and "mset (map datum (paths v)) = mset (linkDataList (component v))"
    and "filter classed (paths v) = paths v"
  using assms by (auto simp: at_rest_def list_all_iff)

lemma drawView_unfold:
  "paths (drawView tidy v) =
     appendEnter (update_sel (linkJoin (v\<lparr>component := draw tidy (component v)\<rparr>)))
       (map (rebind (linkJoin (v\<lparr>component := draw tidy (component v)\<rparr>))) (paths v)) []
       (candidates (created v) (linkDataList (draw tidy (component v))))"
  "created (drawView tidy v) = created v + length (linkDataList (draw tidy (component v)))"
  "component (drawView tidy v) = draw tidy (component v)"
  by (simp_all add: drawView_def drawLinks_def Let_def)

lemma keys_agree:
  assumes H: "\<forall>l \<in> set (A @ B). \<forall>l' \<in> set (A @ B). linkKey l = linkKey l' \<longrightarrow> keyPair l = keyPair l'"
  shows "l \<in> set A \<union> set B \<Longrightarrow> l' \<in> set A \<union> set B \<Longrightarrow>
           linkKey l = linkKey l' \<longleftrightarrow> keyPair l = keyPair l'"
    and "d \<in> set A \<union> set B \<Longrightarrow> set X \<subseteq> set A \<union> set B \<Longrightarrow>
           linkKey d \<in> linkKey ` set X \<longleftrightarrow> keyPair d \<in> keyPair ` set X"
    and "distinct (map keyPair X) \<Longrightarrow> set X \<subseteq> set A \<union> set B \<Longrightarrow> distinct (map linkKey X)"
proof -
  have eq: "linkKey l = linkKey l' \<longleftrightarrow> keyPair l = keyPair l'"
    if "l \<in> set A \<union> set B" "l' \<in> set A \<union> set B" for l l'
  proof
    from that have "l \<in> set (A @ B)" "l' \<in> set (A @ B)" by simp_all
    with H have "linkKey l = linkKey l' \<longrightarrow> keyPair l = keyPair l'" by blast
    then show "keyPair l = keyPair l'" if "linkKey l = linkKey l'" using that by simp
    show "linkKey l = linkKey l'" if "keyPair l = keyPair l'" using that by (rule keyPair_linkKey)
  qed
  show "l \<in> set A \<union> set B \<Longrightarrow> l' \<in> set A \<union> set B \<Longrightarrow>
           linkKey l = linkKey l' \<longleftrightarrow> keyPair l = keyPair l'"
    by (rule eq)
  show "linkKey d \<in> linkKey ` set X \<longleftrightarrow> keyPair d \<in> keyPair ` set X"
    if "d \<in> set A \<union> set B" "set X \<subseteq> set A \<union> set B"
  proof
    assume "linkKey d \<in> linkKey ` set X"
    then obtain x where x: "x \<in> set X" "linkKey d = linkKey x" by auto
    from x(1) that(2) have "x \<in> set A \<union> set B" by blast
    from eq [OF that(1) this] x(2) have "keyPair d = keyPair x" by simp
    with x(1) show "keyPair d \<in> keyPair ` set X" by auto
  next
    assume "keyPair d \<in> keyPair ` set X"
    then obtain x where x: "x \<in> set X" "keyPair d = keyPair x" by auto
    from x(2) have "linkKey d = linkKey x" by (rule keyPair_linkKey)
    with x(1) show "linkKey d \<in> linkKey ` set X" by auto
  qed
  show "distinct (map linkKey X)"
    if "distinct (map keyPair X)" "set X \<subseteq> set A \<union> set B"
  proof -
    from that(1) have dX: "distinct X" and inj: "inj_on keyPair (set X)"
      by (simp_all add: distinct_map)
    have "inj_on linkKey (set X)"
    proof (rule inj_onI)
      fix x y assume x: "x \<in> set X" and y: "y \<in> set X" and k: "linkKey x = linkKey y"
      from x y that(2) have "x \<in> set A \<union> set B" "y \<in> set A \<union> set B" by blast+
      from eq [OF this] k have "keyPair x = keyPair y" by simp
      with inj x y show "x = y" by (simp add: inj_on_def)
    qed
    with dX show ?thesis by (simp add: distinct_map)
  qed
qed

lemma pass_at_rest:
  assumes R: "at_rest v"
    and A: "A = linkDataList (component v)"
    and B: "B = linkDataList (draw tidy (component v))"
    and dA: "distinct (map keyPair A)"
    and dB: "distinct (map keyPair B)"
    and H: "\<forall>l \<in> set (A @ B). \<forall>l' \<in> set (A @ B). linkKey l = linkKey l' \<longrightarrow> keyPair l = keyPair l'"
  shows "filter leaving (paths (drawView tidy v)) =
           map (\<lambda>p. p\<lparr>leaving := True\<rparr>) (filter (\<lambda>p. keyPair (datum p) \<notin> keyPair ` set B) (paths v))"
    and "list_all2 (\<lambda>p q. pid q = pid p \<and> datum q \<in> set B \<and> keyPair (datum q) = keyPair (datum p))
           (filter (\<lambda>p. keyPair (datum p) \<in> keyPair ` set B) (paths v))
           (filter (\<lambda>p. classed p \<and> \<not> leaving p) (paths (drawView tidy v)))"
    and "mset (filter (\<lambda>p. \<not> classed p) (paths (drawView tidy v))) =
           mset (filter (\<lambda>c. keyPair (datum c) \<notin> keyPair ` set A) (candidates (created v) B))"
    and "map (\<lambda>q. keyPair (datum q)) (filter (\<lambda>p. classed p \<and> \<not> leaving p) (paths (drawView tidy v))) =
           map (\<lambda>p. keyPair (datum p)) (filter (\<lambda>p. keyPair (datum p) \<in> keyPair ` set B) (paths v))"
    and "map pid (filter classed (paths (drawView tidy v))) = map pid (paths v)"
    and "enter_sel (linkJoin (v\<lparr>component := draw tidy (component v)\<rparr>)) =
           filter (\<lambda>c. keyPair (datum c) \<notin> keyPair ` set A) (candidates (created v) B)"
    and "map snd (update_sel (linkJoin (v\<lparr>component := draw tidy (component v)\<rparr>))) =
           filter (\<lambda>c. keyPair (datum c) \<in> keyPair ` set A) (candidates (created v) B)"
    and "\<forall>(a, c) \<in> set (update_sel (linkJoin (v\<lparr>component := draw tidy (component v)\<rparr>))).
           a \<in> set (paths v) \<and> keyPair (datum a) = keyPair (datum c)"
    and "exit_sel (linkJoin (v\<lparr>component := draw tidy (component v)\<rparr>)) =
           filter (\<lambda>p. keyPair (datum p) \<notin> keyPair ` set B) (paths v)"
proof -
  define P where "P = paths v"
  define n where "n = created v"
  define C where "C = candidates n B"
  define key where "key = (\<lambda>p::path. linkKey (datum p))"
  define sel where "sel = linkJoin (v\<lparr>component := draw tidy (component v)\<rparr>)"
  define up where "up = update_sel sel"
  note rest = at_rest_D [OF R, folded P_def n_def A]
  have sel: "sel = bindKey key P C"
    by (simp add: sel_def linkJoin_def key_def rest(4) C_def n_def B P_def [symmetric])
  have dC: "map datum C = B" by (simp add: C_def candidates_datum)
  have sPA: "datum ` set P = set A"
    using mset_eq_setD [OF rest(3)] by simp
  have sCB: "datum ` set C = set B"
    using arg_cong [OF dC, of set] by simp
  note ka = keys_agree [OF H]
  have dPk: "distinct (map keyPair (map datum P))"
  proof -
    have "mset (map keyPair (map datum P)) = mset (map keyPair A)"
      using rest(3) by (metis mset_map)
    from mset_eq_imp_distinct_iff [OF this] dA show ?thesis by simp
  qed
  have kPd: "distinct (map key P)"
  proof -
    have "set (map datum P) \<subseteq> set A \<union> set B" using sPA by auto
    from ka(3) [OF dPk this] show ?thesis by (simp add: key_def comp_def)
  qed
  have kCd: "distinct (map key C)"
  proof -
    have "distinct (map linkKey B)" by (rule ka(3) [OF dB]) simp
    then have "distinct (map linkKey (map datum C))" by (simp only: dC)
    then show ?thesis by (simp add: key_def comp_def)
  qed
  note j = bindKey_distinct [OF kPd kCd, folded sel up_def]
  have kP: "key ` set P = linkKey ` set A"
  proof -
    have "key ` set P = linkKey ` (datum ` set P)" by (simp add: key_def image_image)
    then show ?thesis by (simp only: sPA)
  qed
  have kC: "key ` set C = linkKey ` set B"
  proof -
    have "key ` set C = linkKey ` (datum ` set C)" by (simp add: key_def image_image)
    then show ?thesis by (simp only: sCB)
  qed
  have inB: "key p \<in> key ` set C \<longleftrightarrow> keyPair (datum p) \<in> keyPair ` set B" if "p \<in> set P" for p
  proof -
    from that sPA have "datum p \<in> set A \<union> set B" by auto
    from ka(2) [OF this, of B] show ?thesis unfolding kC by (simp add: key_def)
  qed
  have inA: "key c \<in> key ` set P \<longleftrightarrow> keyPair (datum c) \<in> keyPair ` set A" if "c \<in> set C" for c
  proof -
    from that sCB have "datum c \<in> set A \<union> set B" by auto
    from ka(2) [OF this, of A] show ?thesis unfolding kP by (simp add: key_def)
  qed
  have kpair: "keyPair (datum c) = keyPair (datum p)" if "p \<in> set P" "c \<in> set C" "key c = key p" for p c
  proof -
    from that sPA sCB have "datum c \<in> set A \<union> set B" "datum p \<in> set A \<union> set B" by auto
    from ka(1) [OF this] that(3) show ?thesis by (simp add: key_def)
  qed
  have injP: "inj_on pid (set P)" and injPk: "inj_on key (set P)"
    using rest(2) kPd by (simp_all add: distinct_map)
  have injC: "inj_on pid (set C)"
    using candidates_distinct [of n B] by (simp add: distinct_map C_def)
  have u1: "a \<in> set P \<and> c \<in> set C \<and> key a = key c" if "(a, c) \<in> set up" for a c
  proof -
    from that have "c \<in> set (map snd up)" by force
    then have "c \<in> set C" unfolding j(2) by simp
    with that j(3) show ?thesis by auto
  qed
  have u2: "\<exists>c. (p, c) \<in> set up" if "p \<in> set P" "key p \<in> key ` set C" for p
  proof -
    from that(2) obtain c where c: "c \<in> set C" "key c = key p" by force
    from that(1) c(2) have "key c \<in> key ` set P" by force
    with c(1) have "c \<in> set (map snd up)" unfolding j(2) by simp
    then obtain a where a: "(a, c) \<in> set up" by force
    from u1 [OF a] c(2) have "a \<in> set P" "key a = key p" by simp_all
    with injPk that(1) have "a = p" by (simp add: inj_on_def)
    with a show ?thesis by blast
  qed
  have F1: "\<exists>c. find (\<lambda>(a, d). pid a = pid p) up = Some (p, c) \<and> c \<in> set C \<and> key c = key p"
    if "p \<in> set P" "key p \<in> key ` set C" for p
  proof -
    from u2 [OF that] obtain c0 where "(p, c0) \<in> set up" by blast
    then have "find (\<lambda>(a, d). pid a = pid p) up \<noteq> None"
      by (auto simp: find_None_iff')
    then obtain a c where f: "find (\<lambda>(a, d). pid a = pid p) up = Some (a, c)" by auto
    then have m: "(a, c) \<in> set up" and e: "pid a = pid p"
      by (auto simp: find_Some_iff in_set_conv_nth)
    from u1 [OF m] have "a \<in> set P" "c \<in> set C" "key a = key c" by simp_all
    moreover from \<open>a \<in> set P\<close> e injP that(1) have "a = p" by (simp add: inj_on_def)
    ultimately show ?thesis using f by simp
  qed
  have F2: "find (\<lambda>(a, d). pid a = pid p) up = None \<and> p \<in> set (exit_sel sel)"
    if "p \<in> set P" "key p \<notin> key ` set C" for p
  proof -
    have "pid a \<noteq> pid p" if m: "(a, c) \<in> set up" for a c
    proof
      assume e: "pid a = pid p"
      from u1 [OF m] have a: "a \<in> set P" "c \<in> set C" "key a = key c" by simp_all
      with e injP \<open>p \<in> set P\<close> have "a = p" by (simp add: inj_on_def)
      with a have "key p \<in> key ` set C" by force
      with \<open>key p \<notin> key ` set C\<close> show False by simp
    qed
    then have "find (\<lambda>(a, d). pid a = pid p) up = None"
      by (auto simp: find_None_iff')
    moreover have "p \<in> set (exit_sel sel)" unfolding j(4) using that by simp
    ultimately show ?thesis by simp
  qed
  have R1: "\<exists>c \<in> set C. key c = key p \<and> rebind sel p = p\<lparr>datum := datum c, leaving := False\<rparr>"
    if "p \<in> set P" "key p \<in> key ` set C" for p
    using F1 [OF that] by (auto simp: rebind_def up_def)
  have R2: "rebind sel p = p\<lparr>leaving := True\<rparr>"
    if "p \<in> set P" "key p \<notin> key ` set C" for p
    using F2 [OF that] by (auto simp: rebind_def up_def)
  have cl: "classed (rebind sel p)" and pd: "pid (rebind sel p) = pid p"
    and lv: "leaving (rebind sel p) \<longleftrightarrow> keyPair (datum p) \<notin> keyPair ` set B" if "p \<in> set P" for p
  proof -
    from rest(1) that have c: "classed p" by (simp add: P_def)
    show "classed (rebind sel p)" "pid (rebind sel p) = pid p"
      "leaving (rebind sel p) \<longleftrightarrow> keyPair (datum p) \<notin> keyPair ` set B"
      using R1 [OF that] R2 [OF that] c inB [OF that]
      by (cases "key p \<in> key ` set C"; auto)+
  qed
  have paths: "paths (drawView tidy v) = appendEnter up (map (rebind sel) P) [] C"
    by (simp add: drawView_unfold up_def sel_def P_def C_def n_def B)
  have cflags: "\<not> classed c \<and> \<not> leaving c" if "c \<in> set C" for c
    using candidates_flags [of c n B] that by (simp add: C_def)
  show "filter leaving (paths (drawView tidy v)) =
          map (\<lambda>p. p\<lparr>leaving := True\<rparr>) (filter (\<lambda>p. keyPair (datum p) \<notin> keyPair ` set B) (paths v))"
  proof -
    have "filter leaving (appendEnter up (map (rebind sel) P) [] C) = filter leaving (map (rebind sel) P)"
      by (rule filter_appendEnter) (simp add: cflags)
    also have "\<dots> = map (rebind sel) (filter (leaving \<circ> rebind sel) P)"
      by (rule filter_map)
    also have "filter (leaving \<circ> rebind sel) P = filter (\<lambda>p. keyPair (datum p) \<notin> keyPair ` set B) P"
      by (rule filter_cong [OF refl]) (simp add: lv)
    also have "map (rebind sel) (filter (\<lambda>p. keyPair (datum p) \<notin> keyPair ` set B) P) =
               map (\<lambda>p. p\<lparr>leaving := True\<rparr>) (filter (\<lambda>p. keyPair (datum p) \<notin> keyPair ` set B) P)"
    proof (rule map_cong [OF refl])
      fix p assume "p \<in> set (filter (\<lambda>p. keyPair (datum p) \<notin> keyPair ` set B) P)"
      then have p: "p \<in> set P" and "keyPair (datum p) \<notin> keyPair ` set B" by simp_all
      with inB [OF p] have "key p \<notin> key ` set C" by simp
      from R2 [OF p this] show "rebind sel p = p\<lparr>leaving := True\<rparr>" .
    qed
    finally show ?thesis by (simp add: paths P_def)
  qed
  have e: "filter (\<lambda>p. classed p \<and> \<not> leaving p) (paths (drawView tidy v)) =
        map (rebind sel) (filter (\<lambda>p. keyPair (datum p) \<in> keyPair ` set B) (paths v))"
  proof -
    have "filter (\<lambda>p. classed p \<and> \<not> leaving p) (appendEnter up (map (rebind sel) P) [] C) =
          filter (\<lambda>p. classed p \<and> \<not> leaving p) (map (rebind sel) P)"
      by (rule filter_appendEnter) (simp add: cflags)
    also have "\<dots> = map (rebind sel) (filter ((\<lambda>p. classed p \<and> \<not> leaving p) \<circ> rebind sel) P)"
      by (rule filter_map)
    also have "filter ((\<lambda>p. classed p \<and> \<not> leaving p) \<circ> rebind sel) P =
               filter (\<lambda>p. keyPair (datum p) \<in> keyPair ` set B) P"
      by (rule filter_cong [OF refl]) (simp add: lv cl)
    finally show ?thesis
      by (simp add: paths P_def)
  qed
  have upd: "pid (rebind sel p) = pid p \<and> datum (rebind sel p) \<in> set B \<and>
          keyPair (datum (rebind sel p)) = keyPair (datum p)"
      if "p \<in> set (filter (\<lambda>p. keyPair (datum p) \<in> keyPair ` set B) P)" for p
    proof -
      from that have p: "p \<in> set P" and "keyPair (datum p) \<in> keyPair ` set B" by simp_all
      with inB [OF p] have "key p \<in> key ` set C" by simp
      from R1 [OF p this] obtain c where c: "c \<in> set C" "key c = key p"
        "rebind sel p = p\<lparr>datum := datum c, leaving := False\<rparr>" by blast
      from c(1) sCB have "datum c \<in> set B" by auto
      with c kpair [OF p c(1) c(2)] show ?thesis by simp
    qed
  show "list_all2 (\<lambda>p q. pid q = pid p \<and> datum q \<in> set B \<and> keyPair (datum q) = keyPair (datum p))
           (filter (\<lambda>p. keyPair (datum p) \<in> keyPair ` set B) (paths v))
           (filter (\<lambda>p. classed p \<and> \<not> leaving p) (paths (drawView tidy v)))"
    unfolding e using upd by (simp add: list_all2_map2 list_all2_same P_def)
  show "map (\<lambda>q. keyPair (datum q)) (filter (\<lambda>p. classed p \<and> \<not> leaving p) (paths (drawView tidy v))) =
           map (\<lambda>p. keyPair (datum p)) (filter (\<lambda>p. keyPair (datum p) \<in> keyPair ` set B) (paths v))"
    unfolding e using upd by (simp add: P_def)
  show "map pid (filter classed (paths (drawView tidy v))) = map pid (paths v)"
  proof -
    have "filter classed (appendEnter up (map (rebind sel) P) [] C) = filter classed (map (rebind sel) P)"
      by (rule filter_appendEnter) (simp add: cflags)
    also have "\<dots> = map (rebind sel) P"
      by (rule filter_True) (auto simp: cl)
    finally show ?thesis by (simp add: paths pd P_def [symmetric])
  qed
  show "mset (filter (\<lambda>p. \<not> classed p) (paths (drawView tidy v))) =
           mset (filter (\<lambda>c. keyPair (datum c) \<notin> keyPair ` set A) (candidates (created v) B))"
  proof -
    have a0: "filter (\<lambda>p. \<not> classed p) (map (rebind sel) P) = []"
      by (simp add: filter_empty_conv cl)
    have a: "filter_mset (\<lambda>p. \<not> classed p) (mset (map (rebind sel) P)) = {#}"
      using a0 by (metis mset_filter mset.simps(1))
    have b: "filter (\<lambda>p. \<not> classed p) (filter (\<lambda>c. find (\<lambda>(a, d). pid d = pid c) up = None) C) =
             filter (\<lambda>c. find (\<lambda>(a, d). pid d = pid c) up = None) C"
      by (rule filter_True) (simp add: cflags)
    have b': "filter (\<lambda>p. \<not> classed p) (filter (\<lambda>c. keyPair (datum c) \<notin> keyPair ` set A) C) =
             filter (\<lambda>c. keyPair (datum c) \<notin> keyPair ` set A) C"
      by (rule filter_True) (simp add: cflags)
    have c: "filter (\<lambda>c. find (\<lambda>(a, d). pid d = pid c) up = None) C =
             filter (\<lambda>c. keyPair (datum c) \<notin> keyPair ` set A) C"
    proof (rule filter_cong [OF refl])
      fix c assume c: "c \<in> set C"
      have "find (\<lambda>(a, d). pid d = pid c) up = None \<longleftrightarrow> c \<notin> set (map snd up)"
      proof
        assume n: "find (\<lambda>(a, d). pid d = pid c) up = None"
        show "c \<notin> set (map snd up)"
        proof
          assume "c \<in> set (map snd up)"
          then obtain a where "(a, c) \<in> set up" by force
          with n show False by (auto simp: find_None_iff')
        qed
      next
        assume n: "c \<notin> set (map snd up)"
        have "pid d \<noteq> pid c" if m: "(a, d) \<in> set up" for a d
        proof
          assume e: "pid d = pid c"
          from u1 [OF m] have "d \<in> set C" by simp
          with e injC c have "d = c" by (simp add: inj_on_def)
          with m have "c \<in> set (map snd up)" by force
          with n show False by simp
        qed
        then show "find (\<lambda>(a, d). pid d = pid c) up = None"
          by (auto simp: find_None_iff')
      qed
      also have "\<dots> \<longleftrightarrow> key c \<notin> key ` set P" unfolding j(2) using c by simp
      also have "\<dots> \<longleftrightarrow> keyPair (datum c) \<notin> keyPair ` set A" using inA [OF c] by simp
      finally show "(find (\<lambda>(a, d). pid d = pid c) up = None) = (keyPair (datum c) \<notin> keyPair ` set A)" .
    qed
    have s1: "mset (appendEnter up (map (rebind sel) P) [] C) =
          mset (map (rebind sel) P) + mset (filter (\<lambda>c. find (\<lambda>(a, d). pid d = pid c) up = None) C)"
      by (simp only: mset_appendEnter mset.simps add_0_right)
    have "mset (filter (\<lambda>p. \<not> classed p) (appendEnter up (map (rebind sel) P) [] C)) =
          filter_mset (\<lambda>p. \<not> classed p) (mset (appendEnter up (map (rebind sel) P) [] C))"
      by (simp only: mset_filter)
    also have "\<dots> = filter_mset (\<lambda>p. \<not> classed p) (mset (map (rebind sel) P)) +
          filter_mset (\<lambda>p. \<not> classed p) (mset (filter (\<lambda>c. find (\<lambda>(a, d). pid d = pid c) up = None) C))"
      by (simp only: s1 filter_union_mset)
    also have "\<dots> = mset (filter (\<lambda>p. \<not> classed p) (filter (\<lambda>c. find (\<lambda>(a, d). pid d = pid c) up = None) C))"
      by (simp only: a mset_filter add_0_left)
    finally have "mset (filter (\<lambda>p. \<not> classed p) (appendEnter up (map (rebind sel) P) [] C)) =
        mset (filter (\<lambda>c. keyPair (datum c) \<notin> keyPair ` set A) C)"
      unfolding c b' .
    then show ?thesis unfolding paths by (simp only: C_def n_def)
  qed
  show "enter_sel (linkJoin (v\<lparr>component := draw tidy (component v)\<rparr>)) =
           filter (\<lambda>c. keyPair (datum c) \<notin> keyPair ` set A) (candidates (created v) B)"
    unfolding sel_def [symmetric] j(1) C_def [unfolded n_def, symmetric]
    by (rule filter_cong [OF refl]) (simp add: inA)
  show "map snd (update_sel (linkJoin (v\<lparr>component := draw tidy (component v)\<rparr>))) =
           filter (\<lambda>c. keyPair (datum c) \<in> keyPair ` set A) (candidates (created v) B)"
    unfolding sel_def [symmetric] up_def [symmetric] j(2) C_def [unfolded n_def, symmetric]
    by (rule filter_cong [OF refl]) (simp add: inA)
  show "\<forall>(a, c) \<in> set (update_sel (linkJoin (v\<lparr>component := draw tidy (component v)\<rparr>))).
           a \<in> set (paths v) \<and> keyPair (datum a) = keyPair (datum c)"
  proof -
    have "a \<in> set P \<and> keyPair (datum a) = keyPair (datum c)" if "(a, c) \<in> set up" for a c
    proof -
      from u1 [OF that] have a: "a \<in> set P" "c \<in> set C" "key c = key a" by simp_all
      from kpair [OF this] a(1) show ?thesis by simp
    qed
    then show ?thesis unfolding sel_def [symmetric] up_def [symmetric] P_def by blast
  qed
  show "exit_sel (linkJoin (v\<lparr>component := draw tidy (component v)\<rparr>)) =
           filter (\<lambda>p. keyPair (datum p) \<notin> keyPair ` set B) (paths v)"
    unfolding sel_def [symmetric] j(4) P_def [symmetric]
    by (rule filter_cong [OF refl]) (simp add: inB)
qed

lemma bindData_empty: "bindData [] (map (\<lambda>d. (key d, d)) B) = (B, [], [])"
  by (induction B) simp_all

lemma bindKey_empty:
  "enter_sel (bindKey key [] B) = B" "update_sel (bindKey key [] B) = []"
  "exit_sel (bindKey key [] B) = []"
  by (simp_all add: bindKey_def bindData_empty)

lemma appendEnter_no_update: "appendEnter [] elems pending cs = elems @ pending @ cs"
  by (induction cs arbitrary: pending) simp_all

lemma mountView_paths:
  "paths (mountView uuid tidy c d) = candidates 0 (linkDataList (init uuid tidy c d))"
  "created (mountView uuid tidy c d) = length (linkDataList (init uuid tidy c d))"
  "component (mountView uuid tidy c d) = init uuid tidy c d"
  by (simp_all add: mountView_def drawView_unfold linkJoin_def bindKey_empty
      appendEnter_no_update init_def)

lemma frame_sel [simp]:
  "component (frame ended v) = component v" "created (frame ended v) = created v"
  by (simp_all add: frame_def)

lemma at_rest_mount: "at_rest (frame ended (mountView uuid tidy c d))"
proof -
  let ?C = "candidates 0 (linkDataList (init uuid tidy c d))"
  have f: "filter (\<lambda>p. \<not> (leaving p \<and> pid p \<in> set ended)) ?C = ?C"
    by (rule filter_True) (simp add: candidates_flags)
  have p: "paths (frame ended (mountView uuid tidy c d)) = map (\<lambda>p. p\<lparr>classed := True\<rparr>) ?C"
    by (simp only: frame_def mountView_paths f) simp
  have "list_all (\<lambda>p. classed p \<and> \<not> leaving p \<and> pid p < length (linkDataList (init uuid tidy c d)))
          (map (\<lambda>p. p\<lparr>classed := True\<rparr>) ?C)"
    using candidates_flags [of _ 0 "linkDataList (init uuid tidy c d)"]
    by (auto simp: list_all_iff)
  moreover have "map pid (map (\<lambda>p. p\<lparr>classed := True\<rparr>) ?C) = map pid ?C"
    by (simp add: comp_def)
  moreover have "map datum (map (\<lambda>p. p\<lparr>classed := True\<rparr>) ?C) = linkDataList (init uuid tidy c d)"
    using candidates_datum [of 0 "linkDataList (init uuid tidy c d)"] by (simp add: comp_def)
  ultimately show ?thesis
    unfolding at_rest_def p
    by (simp only: frame_sel mountView_paths candidates_distinct)
qed

lemma at_rest_component:
  "linkDataList c' = linkDataList (component v) \<Longrightarrow> at_rest (v\<lparr>component := c'\<rparr>) = at_rest v"
  by (simp add: at_rest_def)

lemma filter_data:
  "map datum (filter (\<lambda>c. Q (datum c)) C) = filter Q (map datum C)"
  by (induction C) simp_all

lemma set_map_filter_key: "set (map f (filter (\<lambda>p. f p \<in> K) P)) = f ` set P \<inter> K"
  by auto

lemma at_rest_settle:
  assumes R: "at_rest v"
    and dA: "distinct (map keyPair (linkDataList (component v)))"
    and dB: "distinct (map keyPair (linkDataList (draw tidy (component v))))"
    and H: "\<forall>l \<in> set (linkDataList (component v) @ linkDataList (draw tidy (component v))).
            \<forall>l' \<in> set (linkDataList (component v) @ linkDataList (draw tidy (component v))).
              linkKey l = linkKey l' \<longrightarrow> keyPair l = keyPair l'"
    and E: "\<forall>p \<in> set (paths (drawView tidy v)). leaving p \<longrightarrow> pid p \<in> set ended"
  shows "at_rest (frame ended (drawView tidy v))"
proof -
  define A where "A = linkDataList (component v)"
  define B where "B = linkDataList (draw tidy (component v))"
  define P where "P = paths v"
  define P' where "P' = paths (drawView tidy v)"
  define n where "n = created v"
  define C where "C = candidates n B"
  define N where "N = filter (\<lambda>c. keyPair (datum c) \<notin> keyPair ` set A) C"
  note rest = at_rest_D [OF R, folded P_def n_def A_def]
  note pass = pass_at_rest [OF R A_def B_def dA [folded A_def] dB [folded B_def] H [folded A_def B_def],
      folded P_def P'_def]
  have pass3: "mset (filter (\<lambda>p. \<not> classed p) P') = mset N"
    unfolding N_def C_def n_def by (rule pass(3))
  have lc: "classed p" if "p \<in> set P'" "leaving p" for p
  proof -
    from that have "p \<in> set (filter leaving P')" by simp
    then obtain q where "q \<in> set P" "p = q\<lparr>leaving := True\<rparr>"
      unfolding pass(1) by auto
    with rest(1) show ?thesis by simp
  qed
  have NC: "set N \<subseteq> set C" by (auto simp: N_def)
  have cf: "\<not> classed c \<and> \<not> leaving c \<and> n \<le> pid c \<and> pid c < n + length B" if "c \<in> set C" for c
    using candidates_flags [of c n B] that by (simp add: C_def)
  have un: "set (filter (\<lambda>p. \<not> classed p) P') = set N"
    using mset_eq_setD [OF pass3] .
  have stay: "filter (\<lambda>p. \<not> (leaving p \<and> pid p \<in> set ended)) P' = filter (\<lambda>p. \<not> leaving p) P'"
    by (rule filter_cong [OF refl]) (use E in \<open>auto simp: P'_def\<close>)
  have part: "mset (filter (\<lambda>p. \<not> leaving p) P') =
      mset (filter (\<lambda>p. classed p \<and> \<not> leaving p) P') + mset (filter (\<lambda>p. \<not> classed p) P')"
  proof -
    have p1: "mset (filter (\<lambda>p. \<not> leaving p) P') =
          mset (filter classed (filter (\<lambda>p. \<not> leaving p) P')) +
          mset (filter (\<lambda>p. \<not> classed p) (filter (\<lambda>p. \<not> leaving p) P'))"
      by (simp only: mset_filter multiset_partition [symmetric])
    have p2: "filter classed (filter (\<lambda>p. \<not> leaving p) P') = filter (\<lambda>p. classed p \<and> \<not> leaving p) P'"
      by (simp add: conj_commute)
    have p3: "filter (\<lambda>p. \<not> classed p) (filter (\<lambda>p. \<not> leaving p) P') = filter (\<lambda>p. \<not> classed p) P'"
      unfolding filter_filter by (rule filter_cong [OF refl]) (use lc in auto)
    show ?thesis unfolding p2 [symmetric] p3 [symmetric] by (rule p1)
  qed
  have pids: "mset (map pid P') = mset (map pid P) + mset (map pid N)"
  proof -
    have "mset P' = mset (filter classed P') + mset (filter (\<lambda>p. \<not> classed p) P')"
      by (simp only: mset_filter multiset_partition [symmetric])
    then have "mset (map pid P') = mset (map pid (filter classed P')) + mset (map pid (filter (\<lambda>p. \<not> classed p) P'))"
      by (metis mset_map image_mset_union)
    moreover have "mset (map pid (filter (\<lambda>p. \<not> classed p) P')) = mset (map pid N)"
      using pass3 by (metis mset_map)
    ultimately show ?thesis by (simp only: pass(5))
  qed
  have dN: "distinct (map pid N)"
    using candidates_distinct [of n B] by (simp add: N_def C_def distinct_map_filter)
  have oldp: "pid p < n" if "p \<in> set P" for p
    using rest(1) [OF that] by simp
  have newp: "n \<le> pid c \<and> pid c < n + length B" if "c \<in> set N" for c
    using NC cf that by blast
  have dP': "distinct (map pid P')"
  proof -
    have "set (map pid P) \<inter> set (map pid N) = {}"
    proof (rule ccontr)
      assume "set (map pid P) \<inter> set (map pid N) \<noteq> {}"
      then obtain p c where "p \<in> set P" "c \<in> set N" "pid p = pid c" by auto
      with oldp [of p] newp [of c] show False by simp
    qed
    with rest(2) dN have "distinct (map pid P @ map pid N)" by simp
    moreover have "mset (map pid P') = mset (map pid P @ map pid N)" using pids by simp
    ultimately show ?thesis using mset_eq_imp_distinct_iff by blast
  qed
  have bound: "pid p < n + length B" if "p \<in> set P'" for p
  proof -
    from that have "pid p \<in># mset (map pid P')" by simp
    then have "pid p \<in> set (map pid P) \<union> set (map pid N)" unfolding pids by simp
    then consider q where "q \<in> set P" "pid p = pid q" | c where "c \<in> set N" "pid p = pid c"
      by auto
    then show ?thesis
    proof cases
      case 1
      with oldp [of q] show ?thesis by simp
    next
      case 2
      with newp [of c] show ?thesis by simp
    qed
  qed
  have dataN: "map datum N = filter (\<lambda>d. keyPair d \<notin> keyPair ` set A) B"
    unfolding N_def C_def
    using filter_data [of "\<lambda>d. keyPair d \<notin> keyPair ` set A" "candidates n B"]
    by (simp add: candidates_datum)
  have dataU: "mset (map datum (filter (\<lambda>p. classed p \<and> \<not> leaving p) P')) =
               mset (filter (\<lambda>d. keyPair d \<in> keyPair ` set A) B)"
  proof -
    let ?U = "map datum (filter (\<lambda>p. classed p \<and> \<not> leaving p) P')"
    have sPA: "datum ` set P = set A" using mset_eq_setD [OF rest(3)] by simp
    have dPk: "distinct (map (\<lambda>p. keyPair (datum p)) P)"
    proof -
      have "mset (map keyPair (map datum P)) = mset (map keyPair A)"
        using rest(3) by (metis mset_map)
      from mset_eq_imp_distinct_iff [OF this] dA show ?thesis by (simp add: A_def comp_def)
    qed
    have kU: "map keyPair ?U = map (\<lambda>p. keyPair (datum p)) (filter (\<lambda>p. keyPair (datum p) \<in> keyPair ` set B) P)"
      using pass(4) by (simp add: comp_def)
    have "distinct (map keyPair ?U)"
      unfolding kU using dPk by (rule distinct_map_filter)
    then have dU: "distinct ?U" by (simp only: distinct_map)
    have UB: "set ?U \<subseteq> set B"
    proof
      fix u assume "u \<in> set ?U"
      then obtain q where q: "q \<in> set (filter (\<lambda>p. classed p \<and> \<not> leaving p) P')" "u = datum q"
        by auto
      from q(1) obtain i where i: "i < length (filter (\<lambda>p. classed p \<and> \<not> leaving p) P')"
        "filter (\<lambda>p. classed p \<and> \<not> leaving p) P' ! i = q"
        unfolding in_set_conv_nth by blast
      from list_all2_nthD2 [OF pass(2) i(1)] i(2) q(2) show "u \<in> set B" by (simp add: B_def)
    qed
    have kUs: "keyPair ` set ?U = keyPair ` set A \<inter> keyPair ` set B"
    proof -
      have "keyPair ` set ?U = set (map keyPair ?U)" by (simp only: set_map)
      also have "\<dots> = (\<lambda>p. keyPair (datum p)) ` set P \<inter> keyPair ` set B"
        unfolding kU by (rule set_map_filter_key)
      also have "(\<lambda>p. keyPair (datum p)) ` set P = keyPair ` set A"
        using sPA by (metis image_image)
      finally show ?thesis .
    qed
    have injB: "inj_on keyPair (set B)"
      using dB by (simp add: B_def distinct_map)
    have S: "set ?U = set (filter (\<lambda>d. keyPair d \<in> keyPair ` set A) B)"
    proof (intro equalityI subsetI)
      fix u assume u: "u \<in> set ?U"
      with UB have "u \<in> set B" by blast
      moreover from u have "keyPair u \<in> keyPair ` set ?U" by (rule imageI)
      ultimately show "u \<in> set (filter (\<lambda>d. keyPair d \<in> keyPair ` set A) B)"
        unfolding kUs by simp
    next
      fix d assume "d \<in> set (filter (\<lambda>d. keyPair d \<in> keyPair ` set A) B)"
      then have d: "d \<in> set B" "keyPair d \<in> keyPair ` set A" by simp_all
      then have "keyPair d \<in> keyPair ` set ?U" unfolding kUs by blast
      then obtain u where u: "u \<in> set ?U" "keyPair d = keyPair u" by blast
      with UB have "u \<in> set B" by blast
      with injB d(1) u(2) have "d = u" by (simp add: inj_on_def)
      with u(1) show "d \<in> set ?U" by simp
    qed
    have dF: "distinct (filter (\<lambda>d. keyPair d \<in> keyPair ` set A) B)"
      using dB by (simp add: B_def distinct_map)
    from set_eq_iff_mset_eq_distinct [OF dU dF] S show ?thesis by blast
  qed
  have data: "mset (map datum (filter (\<lambda>p. \<not> leaving p) P')) = mset B"
  proof -
    have "mset (map datum (filter (\<lambda>p. \<not> leaving p) P')) =
          image_mset datum (mset (filter (\<lambda>p. \<not> leaving p) P'))"
      by (rule mset_map)
    also have "\<dots> = image_mset datum (mset (filter (\<lambda>p. classed p \<and> \<not> leaving p) P')) +
          image_mset datum (mset (filter (\<lambda>p. \<not> classed p) P'))"
      unfolding part by (rule image_mset_union)
    also have "\<dots> = mset (map datum (filter (\<lambda>p. classed p \<and> \<not> leaving p) P')) +
          mset (map datum N)"
      unfolding pass3 by (simp only: mset_map)
    also have "\<dots> = mset (filter (\<lambda>d. keyPair d \<in> keyPair ` set A) B) +
          mset (filter (\<lambda>d. keyPair d \<notin> keyPair ` set A) B)"
      by (simp only: dataU dataN)
    also have "\<dots> = mset B"
      by (simp only: mset_filter multiset_partition [symmetric])
    finally show ?thesis .
  qed
  have fp: "paths (frame ended (drawView tidy v)) =
            map (\<lambda>p. p\<lparr>classed := True\<rparr>) (filter (\<lambda>p. \<not> leaving p) P')"
    by (simp only: frame_def P'_def [symmetric] stay) simp
  have a: "list_all (\<lambda>p. classed p \<and> \<not> leaving p \<and> pid p < created (frame ended (drawView tidy v)))
             (paths (frame ended (drawView tidy v)))"
  proof -
    have cr: "created (frame ended (drawView tidy v)) = n + length B"
      by (simp add: drawView_unfold(2) n_def B_def)
    show ?thesis unfolding fp cr using bound by (auto simp: list_all_iff)
  qed
  have b: "distinct (map pid (paths (frame ended (drawView tidy v))))"
  proof -
    have m: "map pid (map (\<lambda>p. p\<lparr>classed := True\<rparr>) (filter (\<lambda>p. \<not> leaving p) P')) =
          map pid (filter (\<lambda>p. \<not> leaving p) P')"
      by (simp add: comp_def)
    show ?thesis unfolding fp m using dP' by (rule distinct_map_filter)
  qed
  have c: "mset (map datum (paths (frame ended (drawView tidy v)))) =
           mset (linkDataList (component (frame ended (drawView tidy v))))"
  proof -
    have m: "map datum (map (\<lambda>p. p\<lparr>classed := True\<rparr>) (filter (\<lambda>p. \<not> leaving p) P')) =
          map datum (filter (\<lambda>p. \<not> leaving p) P')"
      by (simp add: comp_def)
    have l: "linkDataList (component (frame ended (drawView tidy v))) = B"
      by (simp add: drawView_unfold B_def)
    show ?thesis unfolding fp m l by (rule data)
  qed
  from a b c show ?thesis unfolding at_rest_def by blast
qed

section \<open>What the join does to paths at rest\<close>

text \<open>
  Claim C3, as the code has it. The join compares the new links with the paths of the svg
  that have the class \<^verbatim>\<open>link\<close>, by the string \<^verbatim>\<open>sourceKey-targetKey\<close>. Take a state in
  which the paths are at rest, so that they are the paths of the links \<open>A\<close> of the previous
  pass, and the links \<open>B\<close> that the pass computes, \<open>A\<close> and \<open>B\<close> each without a repeated key
  pair and such that among their links equal strings come from equal key pairs. Then the
  join makes exactly the links of \<open>B\<close> enter whose key pair is not in \<open>A\<close>, it updates
  exactly the links of \<open>B\<close> whose key pair is in \<open>A\<close>, each on the path that carries the
  link of \<open>A\<close> with that key pair, and it makes exactly the paths exit whose link has a key
  pair that is not in \<open>B\<close>; no link enters and is updated, and no path exits and is
  updated. In the svg after the pass the paths without the class are the entering links,
  the paths with an exit transition are the exiting ones, and the others are the paths that
  were updated, each with the link of \<open>B\<close> of its key pair.
\<close>

theorem link_join_classifies:
  assumes R: "at_rest v"
    and dA: "distinct (map keyPair (linkDataList (component v)))"
    and dB: "distinct (map keyPair (linkDataList (draw tidy (component v))))"
    and H: "\<forall>l \<in> set (linkDataList (component v) @ linkDataList (draw tidy (component v))).
            \<forall>l' \<in> set (linkDataList (component v) @ linkDataList (draw tidy (component v))).
              linkKey l = linkKey l' \<longrightarrow> keyPair l = keyPair l'"
  shows "let A = linkDataList (component v);
             B = linkDataList (draw tidy (component v));
             links = linkJoin (v\<lparr>component := draw tidy (component v)\<rparr>);
             v' = drawView tidy v
         in map datum (enter_sel links) = filter (\<lambda>d. keyPair d \<notin> keyPair ` set A) B \<and>
            map datum (map snd (update_sel links)) = filter (\<lambda>d. keyPair d \<in> keyPair ` set A) B \<and>
            (\<forall>(a, c) \<in> set (update_sel links).
               a \<in> set (paths v) \<and> keyPair (datum a) = keyPair (datum c)) \<and>
            exit_sel links = filter (\<lambda>p. keyPair (datum p) \<notin> keyPair ` set B) (paths v) \<and>
            set (enter_sel links) \<inter> set (map snd (update_sel links)) = {} \<and>
            set (exit_sel links) \<inter> set (map fst (update_sel links)) = {} \<and>
            mset (filter (\<lambda>p. \<not> classed p) (paths v')) = mset (enter_sel links) \<and>
            filter leaving (paths v') = map (\<lambda>p. p\<lparr>leaving := True\<rparr>) (exit_sel links) \<and>
            list_all2 (\<lambda>p q. pid q = pid p \<and> datum q \<in> set B \<and> keyPair (datum q) = keyPair (datum p))
              (filter (\<lambda>p. keyPair (datum p) \<in> keyPair ` set B) (paths v))
              (filter (\<lambda>p. classed p \<and> \<not> leaving p) (paths v'))"
proof -
  define A where "A = linkDataList (component v)"
  define B where "B = linkDataList (draw tidy (component v))"
  define J where "J = linkJoin (v\<lparr>component := draw tidy (component v)\<rparr>)"
  define C where "C = candidates (created v) B"
  note pass = pass_at_rest [OF R A_def B_def dA [folded A_def] dB [folded B_def] H [folded A_def B_def],
      folded J_def C_def]
  have dC: "map datum C = B" by (simp add: C_def candidates_datum)
  have en: "map datum (enter_sel J) = filter (\<lambda>d. keyPair d \<notin> keyPair ` set A) B"
    unfolding pass(6)
    using filter_data [of "\<lambda>d. keyPair d \<notin> keyPair ` set A" C] by (simp only: dC)
  have up: "map datum (map snd (update_sel J)) = filter (\<lambda>d. keyPair d \<in> keyPair ` set A) B"
    unfolding pass(7)
    using filter_data [of "\<lambda>d. keyPair d \<in> keyPair ` set A" C] by (simp only: dC)
  have d1: "set (enter_sel J) \<inter> set (map snd (update_sel J)) = {}"
    unfolding pass(6) pass(7) by auto
  have d2: "set (exit_sel J) \<inter> set (map fst (update_sel J)) = {}"
  proof (rule ccontr)
    assume "set (exit_sel J) \<inter> set (map fst (update_sel J)) \<noteq> {}"
    then obtain a where a1: "a \<in> set (exit_sel J)" and a2: "a \<in> set (map fst (update_sel J))"
      by auto
    from a2 obtain c where m: "(a, c) \<in> set (update_sel J)" by auto
    then have "c \<in> set (map snd (update_sel J))" by force
    then have "c \<in> set C" unfolding pass(7) by simp
    then have "datum c \<in> set B" using arg_cong [OF dC, of set] by auto
    moreover from m pass(8) have "keyPair (datum a) = keyPair (datum c)" by auto
    ultimately have "keyPair (datum a) \<in> keyPair ` set B" by auto
    with a1 show False unfolding pass(9) by simp
  qed
  have ent: "mset (filter (\<lambda>p. \<not> classed p) (paths (drawView tidy v))) = mset (enter_sel J)"
    unfolding pass(6) by (rule pass(3))
  have ex: "filter leaving (paths (drawView tidy v)) = map (\<lambda>p. p\<lparr>leaving := True\<rparr>) (exit_sel J)"
    unfolding pass(9) by (rule pass(1))
  from en up pass(8) pass(9) d1 d2 ent ex pass(2)
  show ?thesis
    unfolding Let_def A_def [symmetric] B_def [symmetric] J_def [symmetric] by blast
qed

theorem link_join_classifies_witness:
  "at_rest (frame [] (mountView sample_uuid sample_tidy default_config dataset)) \<and>
   shown (frame [] (mountView sample_uuid sample_tidy default_config dataset)) =
     [(0, (JStr ''k'', JStr ''kk''), True, False), (1, (JStr ''k'', JStr ''kkkkk''), True, False),
      (2, (JStr ''kk'', JStr ''kkk''), True, False), (3, (JStr ''kk'', JStr ''kkkk''), True, False)] \<and>
   map keyPair (linkDataList (component (fst (clickView sample_tidy
       (frame [] (mountView sample_uuid sample_tidy default_config dataset)) 1)))) =
     [(JStr ''k'', JStr ''kk''), (JStr ''k'', JStr ''kkkkk'')] \<and>
   shown (fst (clickView sample_tidy
       (frame [] (mountView sample_uuid sample_tidy default_config dataset)) 1)) =
     [(0, (JStr ''k'', JStr ''kk''), True, False), (1, (JStr ''k'', JStr ''kkkkk''), True, False),
      (2, (JStr ''kk'', JStr ''kkk''), True, True), (3, (JStr ''kk'', JStr ''kkkk''), True, True)] \<and>
   mset (filter (\<lambda>p. \<not> classed p) (paths (fst (clickView sample_tidy
       (frame [] (mountView sample_uuid sample_tidy default_config dataset)) 1)))) = {#}"
proof -
  let ?V = "frame [] (mountView sample_uuid sample_tidy default_config dataset)"
  let ?c = "(component ?V)\<lparr>internal :=
      modifyAt (ppath (nodeDataList (component ?V) ! 1)) toggle (internal (component ?V))\<rparr>"
  let ?v = "?V\<lparr>component := ?c\<rparr>"
  have en: "collapseEnabled (cfg (component ?V))" by code_simp
  have i: "1 < length (nodeDataList (component ?V))" by code_simp
  have ck: "fst (clickView sample_tidy ?V 1) = drawView sample_tidy ?v"
    using en i by (simp add: clickView_def Let_def)
  have R0: "at_rest ?V" by (rule at_rest_mount)
  have R: "at_rest ?v"
    using at_rest_component [of ?c ?V] R0 by simp
  have dA: "distinct (map keyPair (linkDataList (component ?v)))" by code_simp
  have dB: "distinct (map keyPair (linkDataList (draw sample_tidy (component ?v))))" by code_simp
  have H: "\<forall>l \<in> set (linkDataList (component ?v) @ linkDataList (draw sample_tidy (component ?v))).
           \<forall>l' \<in> set (linkDataList (component ?v) @ linkDataList (draw sample_tidy (component ?v))).
             linkKey l = linkKey l' \<longrightarrow> keyPair l = keyPair l'"
    by code_simp
  have e: "enter_sel (linkJoin (?v\<lparr>component := draw sample_tidy (component ?v)\<rparr>)) = []"
    by code_simp
  have a: "shown ?V =
     [(0, (JStr ''k'', JStr ''kk''), True, False), (1, (JStr ''k'', JStr ''kkkkk''), True, False),
      (2, (JStr ''kk'', JStr ''kkk''), True, False), (3, (JStr ''kk'', JStr ''kkkk''), True, False)]"
    by code_simp
  have b: "map keyPair (linkDataList (component (fst (clickView sample_tidy ?V 1)))) =
     [(JStr ''k'', JStr ''kk''), (JStr ''k'', JStr ''kkkkk'')]"
    by code_simp
  have c: "shown (fst (clickView sample_tidy ?V 1)) =
     [(0, (JStr ''k'', JStr ''kk''), True, False), (1, (JStr ''k'', JStr ''kkkkk''), True, False),
      (2, (JStr ''kk'', JStr ''kkk''), True, True), (3, (JStr ''kk'', JStr ''kkkk''), True, True)]"
    by code_simp
  from link_join_classifies [OF R dA dB H]
  have "mset (filter (\<lambda>p. \<not> classed p) (paths (drawView sample_tidy ?v))) =
        mset (enter_sel (linkJoin (?v\<lparr>component := draw sample_tidy (component ?v)\<rparr>)))"
    unfolding Let_def by blast
  then have "mset (filter (\<lambda>p. \<not> classed p) (paths (fst (clickView sample_tidy ?V 1)))) = {#}"
    unfolding e ck by simp
  with R0 a b c show ?thesis by blast
qed

text \<open>
  Claim C3 as stated fails when the paths are not at rest. A click right after mounting,
  before the first animation frame, finds no path with the class: the two links of the
  new pass have their key pairs among the four links of the previous pass and should be
  updated, and the other two links of the previous pass should exit. The join makes both
  new links enter, as the new paths 4 and 5, and no path is updated or exits.
\<close>

theorem click_before_first_frame_enters_all:
  "map keyPair (linkDataList (component (mountView sample_uuid sample_tidy default_config dataset))) =
     [(JStr ''k'', JStr ''kk''), (JStr ''k'', JStr ''kkkkk''),
      (JStr ''kk'', JStr ''kkk''), (JStr ''kk'', JStr ''kkkk'')] \<and>
   shown (mountView sample_uuid sample_tidy default_config dataset) =
     [(0, (JStr ''k'', JStr ''kk''), False, False), (1, (JStr ''k'', JStr ''kkkkk''), False, False),
      (2, (JStr ''kk'', JStr ''kkk''), False, False), (3, (JStr ''kk'', JStr ''kkkk''), False, False)] \<and>
   map keyPair (linkDataList (component (fst (clickView sample_tidy
       (mountView sample_uuid sample_tidy default_config dataset) 1)))) =
     [(JStr ''k'', JStr ''kk''), (JStr ''k'', JStr ''kkkkk'')] \<and>
   shown (fst (clickView sample_tidy (mountView sample_uuid sample_tidy default_config dataset) 1)) =
     [(0, (JStr ''k'', JStr ''kk''), False, False), (1, (JStr ''k'', JStr ''kkkkk''), False, False),
      (2, (JStr ''kk'', JStr ''kkk''), False, False), (3, (JStr ''kk'', JStr ''kkkk''), False, False),
      (4, (JStr ''k'', JStr ''kk''), False, False), (5, (JStr ''k'', JStr ''kkkkk''), False, False)]"
  by code_simp

text \<open>
  The condition on the strings is needed as well. With the keys \<^verbatim>\<open>a\<close>, \<^verbatim>\<open>b-c\<close>,
  \<^verbatim>\<open>a-b\<close> and \<^verbatim>\<open>c\<close> in the payloads, the links from \<^verbatim>\<open>a\<close> to \<^verbatim>\<open>b-c\<close> and from
  \<^verbatim>\<open>a-b\<close> to \<^verbatim>\<open>c\<close> have one string. With the paths at rest, a click that collapses
  the node \<^verbatim>\<open>a\<close> leaves the link from \<^verbatim>\<open>a-b\<close> to \<^verbatim>\<open>c\<close> only: the join binds it to
  path 0, which carried the other link, and makes path 1 exit, which carried this link.
\<close>

lemma hyphen_keys_update_other_path:
  "shown (frame [] (mountView sample_uuid sample_tidy default_config
      (Forest [Raw [(''_key'', JStr ''a-b'')] (Some [Raw [(''_key'', JStr ''c'')] None]),
               Raw [(''_key'', JStr ''a'')] (Some [Raw [(''_key'', JStr ''b-c'')] None])]))) =
     [(0, (JStr ''a'', JStr ''b-c''), True, False), (1, (JStr ''a-b'', JStr ''c''), True, False)] \<and>
   map keyPair (linkDataList (component (fst (clickView sample_tidy
      (frame [] (mountView sample_uuid sample_tidy default_config
        (Forest [Raw [(''_key'', JStr ''a-b'')] (Some [Raw [(''_key'', JStr ''c'')] None]),
                 Raw [(''_key'', JStr ''a'')] (Some [Raw [(''_key'', JStr ''b-c'')] None])]))) 0)))) =
     [(JStr ''a-b'', JStr ''c'')] \<and>
   shown (fst (clickView sample_tidy
      (frame [] (mountView sample_uuid sample_tidy default_config
        (Forest [Raw [(''_key'', JStr ''a-b'')] (Some [Raw [(''_key'', JStr ''c'')] None]),
                 Raw [(''_key'', JStr ''a'')] (Some [Raw [(''_key'', JStr ''b-c'')] None])]))) 0)) =
     [(0, (JStr ''a-b'', JStr ''c''), True, False), (1, (JStr ''a-b'', JStr ''c''), True, True)]"
  by code_simp

end
